theory Spec2Isabelle
  imports Main
begin

section \<open>Sentinels\<close>

text \<open>The two module constants of \<^verbatim>\<open>autocompleter.py\<close> used as sentence padding.\<close>

definition RIGHT_SENT_PAD :: string where
  "RIGHT_SENT_PAD = ''</s>''"

definition LEFT_SENT_PAD :: string where
  "LEFT_SENT_PAD = ''<s>''"

section \<open>The n-gram counter\<close>

text \<open>
  \<^verbatim>\<open>fit\<close> stores an \<^verbatim>\<open>nltk.lm.counter.NgramCounter\<close>. A \<^verbatim>\<open>FreqDist\<close> is a
  \<^verbatim>\<open>collections.Counter\<close>, that is a dictionary from words to integer counts that keeps
  its keys in the order of their first insertion; it is modelled as an association list in
  that order. A missing key reads as 0.
\<close>

type_synonym FreqDist = "(string \<times> int) list"

fun freq :: "FreqDist \<Rightarrow> string \<Rightarrow> int" where
  "freq [] w = 0"
| "freq ((k, c) # fd) w = (if k = w then c else freq fd w)"

text \<open>\<^verbatim>\<open>fd[word] += 1\<close>: an existing key keeps its place, a new key goes to the end.\<close>

fun incr :: "string \<Rightarrow> FreqDist \<Rightarrow> FreqDist" where
  "incr w [] = [(w, 1)]"
| "incr w ((k, c) # fd) = (if k = w then (k, c + 1) # fd else (k, c) # incr w fd)"

text \<open>\<^verbatim>\<open>FreqDist.N()\<close>: the sum of all values.\<close>

definition N :: "FreqDist \<Rightarrow> int" where
  "N fd = sum_list (map snd fd)"

text \<open>
  \<^verbatim>\<open>Counter.most_common(n)\<close> is \<^verbatim>\<open>heapq.nlargest(n, self.items(), key=itemgetter(1))\<close>,
  which returns what \<^verbatim>\<open>sorted(self.items(), key=itemgetter(1), reverse=True)[:n]\<close>
  returns: the items by descending count, items of equal count in the order of the dictionary,
  cut to the first \<open>n\<close> (none when \<open>n \<le> 0\<close>).
\<close>

definition most_common :: "FreqDist \<Rightarrow> int \<Rightarrow> (string \<times> int) list" where
  "most_common fd n = take (nat n) (sort_key (\<lambda>item. - snd item) fd)"

text \<open>
  The counter itself: \<^verbatim>\<open>unigrams\<close> is the \<^verbatim>\<open>FreqDist\<close> of order 1, and
  \<^verbatim>\<open>_counts[order][context]\<close> for every higher order is a \<^verbatim>\<open>FreqDist\<close> of the words
  seen after \<open>context\<close>. Both levels are \<^verbatim>\<open>defaultdict\<close>s, so an order or a context
  never seen reads as an empty distribution.
\<close>

record NgramCounter =
  unigrams :: FreqDist
  counts :: "nat \<Rightarrow> string list \<Rightarrow> FreqDist"

definition empty_counter :: NgramCounter where
  "empty_counter = \<lparr>unigrams = [], counts = (\<lambda>order context. [])\<rparr>"

text \<open>
  One step of \<^verbatim>\<open>NgramCounter.update\<close>: a 1-tuple increments \<^verbatim>\<open>unigrams\<close>, a longer
  tuple increments \<^verbatim>\<open>self[len(ngram)][ngram[:-1]][ngram[-1]]\<close>.
\<close>

definition update_ngram :: "string list \<Rightarrow> NgramCounter \<Rightarrow> NgramCounter" where
  "update_ngram ngram c =
     (let ngram_order = length ngram in
      if ngram_order = 1 then c\<lparr>unigrams := incr (hd ngram) (unigrams c)\<rparr>
      else
        let context = butlast ngram; word = last ngram in
        c\<lparr>counts := (counts c)(ngram_order :=
             (counts c ngram_order)(context := incr word (counts c ngram_order context)))\<rparr>)"

text \<open>\<^verbatim>\<open>NgramCounter.update(ngram_text)\<close>: every n-gram of every sentence, in order.\<close>

definition update :: "string list list list \<Rightarrow> NgramCounter \<Rightarrow> NgramCounter" where
  "update ngram_text c = fold (\<lambda>sent c'. fold update_ngram sent c') ngram_text c"

section \<open>Padded n-grams\<close>

text \<open>\<^verbatim>\<open>nltk.util.pad_sequence\<close>: \<open>n - 1\<close> pad symbols on each requested side.\<close>

definition pad_sequence ::
  "string list \<Rightarrow> nat \<Rightarrow> bool \<Rightarrow> bool \<Rightarrow> string \<Rightarrow> string \<Rightarrow> string list" where
  "pad_sequence sequence n pad_left pad_right left_pad_symbol right_pad_symbol =
     (if pad_left then replicate (n - 1) left_pad_symbol else []) @ sequence @
     (if pad_right then replicate (n - 1) right_pad_symbol else [])"

text \<open>
  \<^verbatim>\<open>nltk.util.ngrams\<close>: the first \<open>n - 1\<close> items fill \<^verbatim>\<open>history\<close> (nothing is produced
  when there are fewer); then every further item is appended, the history is produced as a
  tuple and its first item dropped.
\<close>

fun slide :: "string list \<Rightarrow> string list \<Rightarrow> string list list" where
  "slide history [] = []"
| "slide history (item # sequence) = (history @ [item]) # slide (tl (history @ [item])) sequence"

definition ngrams ::
  "string list \<Rightarrow> nat \<Rightarrow> bool \<Rightarrow> bool \<Rightarrow> string \<Rightarrow> string \<Rightarrow> string list list" where
  "ngrams sequence n pad_left pad_right left_pad_symbol right_pad_symbol =
     (let padded = pad_sequence sequence n pad_left pad_right left_pad_symbol right_pad_symbol in
      if length padded < n - 1 then []
      else slide (take (n - 1) padded) (drop (n - 1) padded))"

section \<open>Model construction\<close>

text \<open>
  Step 7 of \<^verbatim>\<open>fit\<close>: the trigrams of every sentence, then the bigrams of every sentence,
  then the unigrams, all counted by one \<^verbatim>\<open>NgramCounter\<close>.
\<close>

definition fit_counter :: "string list list \<Rightarrow> NgramCounter" where
  "fit_counter tokenized_words =
     (let trigrams = map (\<lambda>sentence. ngrams sentence 3 True True LEFT_SENT_PAD RIGHT_SENT_PAD) tokenized_words;
          bigrams = map (\<lambda>sentence. ngrams sentence 2 True True LEFT_SENT_PAD RIGHT_SENT_PAD) tokenized_words;
          unigrams = map (\<lambda>sentence. ngrams sentence 1 True True LEFT_SENT_PAD RIGHT_SENT_PAD) tokenized_words
      in update (trigrams @ bigrams @ unigrams) empty_counter)"

section \<open>The autocompleter\<close>

record Autocompleter =
  ngram_counter :: "NgramCounter option"

text \<open>\<^verbatim>\<open>__init__\<close>.\<close>

definition init :: Autocompleter where
  "init = \<lparr>ngram_counter = None\<rparr>"

text \<open>\<^verbatim>\<open>word.startswith(start_string)\<close>.\<close>

fun startswith :: "string \<Rightarrow> string \<Rightarrow> bool" where
  "startswith word [] = True"
| "startswith [] (p # ps) = False"
| "startswith (c # word) (p # ps) = (c = p \<and> startswith word ps)"

text \<open>
  Python slices. \<^verbatim>\<open>xs[-2:]\<close> is the last two items, or all of them when there are fewer;
  \<^verbatim>\<open>xs[:k]\<close> is the first \<open>k\<close> items for \<open>k \<ge> 0\<close> and all but the last \<open>-k\<close> for
  \<open>k < 0\<close>.
\<close>

definition last_two :: "'a list \<Rightarrow> 'a list" where
  "last_two xs = drop (length xs - 2) xs"

definition slice_to :: "int \<Rightarrow> 'a list \<Rightarrow> 'a list" where
  "slice_to k xs = (if 0 \<le> k then take (nat k) xs else take (nat (int (length xs) + k)) xs)"

text \<open>
  \<^verbatim>\<open>NgramCounter.__getitem__\<close> on a tuple: \<^verbatim>\<open>self._counts[len(item) + 1][tuple(item)]\<close>.
\<close>

definition getitem :: "NgramCounter \<Rightarrow> string list \<Rightarrow> FreqDist" where
  "getitem c item = counts c (length item + 1) item"

text \<open>\<^verbatim>\<open>Autocompleter.get_next_word\<close>.\<close>

definition get_next_word :: "Autocompleter \<Rightarrow> string list \<Rightarrow> int \<Rightarrow> string \<Rightarrow> string list" where
  "get_next_word self prefix_string top_n start_string =
     (case ngram_counter self of
        None \<Rightarrow> []
      | Some c \<Rightarrow>
          if length prefix_string < 1 then []
          else
            let conditional_word_tuple = last_two prefix_string;
                number_of_words = N (unigrams c);
                predicted_words = most_common (getitem c conditional_word_tuple) number_of_words
            in slice_to top_n (filter (\<lambda>word. startswith word start_string) (map fst predicted_words)))"

text \<open>
  \<^verbatim>\<open>Autocompleter.get_sentence\<close>. The loop runs at most
  \<^verbatim>\<open>max_sentence_length - len(prefix_string)\<close> times and returns early when no word is
  predicted or the predicted word is the right pad.
\<close>

fun grow :: "Autocompleter \<Rightarrow> nat \<Rightarrow> string list \<Rightarrow> string list" where
  "grow self 0 sentence = sentence"
| "grow self (Suc i) sentence =
     (let word = get_next_word self sentence 1 [] in
      if length word = 0 \<or> hd word = RIGHT_SENT_PAD then sentence
      else grow self i (sentence @ [hd word]))"

definition get_sentence :: "Autocompleter \<Rightarrow> string list \<Rightarrow> int \<Rightarrow> string list" where
  "get_sentence self prefix_string max_sentence_length =
     (case ngram_counter self of
        None \<Rightarrow> []
      | Some c \<Rightarrow>
          if int (length prefix_string) \<ge> max_sentence_length \<or> length prefix_string = 0
          then prefix_string
          else grow self (nat (max_sentence_length - int (length prefix_string))) prefix_string)"

text \<open>\<^verbatim>\<open>Autocompleter.in_vocabulary\<close>: \<^verbatim>\<open>self.ngram_counter[word]\<close> on a string is the unigram count.\<close>

definition in_vocabulary :: "Autocompleter \<Rightarrow> string \<Rightarrow> int \<Rightarrow> bool" where
  "in_vocabulary self word count_threshold =
     (case ngram_counter self of
        None \<Rightarrow> False
      | Some c \<Rightarrow> freq (unigrams c) word > count_threshold)"

section \<open>Text utilities\<close>

text \<open>
  The libraries that \<^verbatim>\<open>util.py\<close> calls (nltk's tokenizers and detokenizer, the
  autocorrect speller, spaCy's entity recogniser, truecase) are parameters of the model, and
  so is \<^verbatim>\<open>str.lower\<close>, which lowers every cased character of Unicode.
\<close>

record nlp =
  lower :: "string \<Rightarrow> string"
  sent_tokenize :: "string \<Rightarrow> string list"
  word_tokenize :: "string \<Rightarrow> string list"
  detokenize :: "string list \<Rightarrow> string"
  autocorrect_sentence :: "string \<Rightarrow> string"
  ents :: "string \<Rightarrow> (string \<times> string) list"
  truecase :: "string \<Rightarrow> string"

text \<open>
  \<^verbatim>\<open>re.sub('<.*?>', '', text)\<close>: at a \<open><\<close>, the shortest match ends at the next
  \<open>>\<close> when no newline comes before it; the search goes on after the match.
\<close>

fun find_close :: "string \<Rightarrow> string option" where
  "find_close [] = None"
| "find_close (c # cs) =
     (if c = CHR ''>'' then Some cs else if c = CHR 0x0A then None else find_close cs)"

function remove_tags :: "string \<Rightarrow> string" where
  "remove_tags [] = []"
| "remove_tags (c # cs) =
     (if c = CHR ''<'' then
        (case find_close cs of Some rest \<Rightarrow> remove_tags rest | None \<Rightarrow> c # remove_tags cs)
      else c # remove_tags cs)"
  by pat_completeness auto
termination
proof (relation "measure length")
  fix c :: char and cs rest :: string
  have shorter: "find_close xs = Some ys \<Longrightarrow> length ys < Suc (length xs)" for xs ys
    by (induction xs) (auto split: if_splits)
  assume "find_close cs = Some rest"
  then show "(rest, c # cs) \<in> measure length"
    using shorter by simp
qed simp_all

text \<open>\<^verbatim>\<open>re.sub(' +', ' ', text)\<close>: of every run of spaces one space stays.\<close>

fun squeeze_spaces :: "string \<Rightarrow> string" where
  "squeeze_spaces [] = []"
| "squeeze_spaces [c] = [c]"
| "squeeze_spaces (c # d # cs) =
     (if c = CHR '' '' \<and> d = CHR '' '' then squeeze_spaces (d # cs)
      else c # squeeze_spaces (d # cs))"

definition format_and_clean :: "nlp \<Rightarrow> string \<Rightarrow> string" where
  "format_and_clean env text0 =
     (let text1 = lower env text0;
          text2 = remove_tags text1;
          text3 = filter (\<lambda>c. c \<notin> {CHR ''.'', CHR '','', CHR 0x22}) text2
      in squeeze_spaces text3)"

definition spell_correction :: "nlp \<Rightarrow> string \<Rightarrow> string" where
  "spell_correction env text0 = autocorrect_sentence env text0"

definition sentence_tokenize :: "nlp \<Rightarrow> string list \<Rightarrow> string list" where
  "sentence_tokenize env documents = concat (map (sent_tokenize env) documents)"

text \<open>
  \<^verbatim>\<open>str.replace(old, new)\<close>: every occurrence of \<open>old\<close>, left to right, without overlap;
  an empty \<open>old\<close> matches before every character and at the end.
\<close>

fun replace_from :: "string \<Rightarrow> string \<Rightarrow> nat \<Rightarrow> string \<Rightarrow> string" where
  "replace_from old new skip [] = []"
| "replace_from old new (Suc skip) (c # cs) = replace_from old new skip cs"
| "replace_from old new 0 (c # cs) =
     (if startswith (c # cs) old then new @ replace_from old new (length old - 1) cs
      else c # replace_from old new 0 cs)"

definition replace :: "string \<Rightarrow> string \<Rightarrow> string \<Rightarrow> string" where
  "replace document old new =
     (if old = [] then new @ concat (map (\<lambda>c. c # new) document)
      else replace_from old new 0 document)"

definition encode_entities :: "nlp \<Rightarrow> string \<Rightarrow> string" where
  "encode_entities env document =
     (let person_label = ''__PER__''; organization_label = ''__ORG__'';
          entities = ents env document;
          document1 = fold (\<lambda>(text0, label) doc.
                         let doc1 = (if label = ''PERSON'' then replace doc text0 person_label else doc)
                         in if label = ''ORG'' then replace doc1 text0 organization_label else doc1)
                       entities document;
          document2 = replace document1 ''Snoopy'' person_label
      in replace document2 ''snoopy'' person_label)"

definition get_true_case :: "nlp \<Rightarrow> string \<Rightarrow> string" where
  "get_true_case env text0 = truecase env text0"

section \<open>Completions\<close>

text \<open>\<^verbatim>\<open>Autocompleter.generate_completions\<close>; \<^verbatim>\<open>in_vocabulary\<close> is called with its default threshold 50.\<close>

definition generate_completions ::
  "nlp \<Rightarrow> Autocompleter \<Rightarrow> string \<Rightarrow> int \<Rightarrow> int \<Rightarrow> string list" where
  "generate_completions env self prefix_string max_sentence_length max_num_of_sentences =
     (case ngram_counter self of
        None \<Rightarrow> []
      | Some c \<Rightarrow>
          let prefix1 = format_and_clean env prefix_string;
              prefix2 = spell_correction env prefix1;
              prefix3 = encode_entities env prefix2;
              tokenized_words = word_tokenize env prefix3
          in if length tokenized_words = 0 then []
             else
               let stub = \<not> in_vocabulary self (last tokenized_words) 50;
                   start_string = (if stub then last tokenized_words else []);
                   tokenized_words1 = (if stub then butlast tokenized_words else tokenized_words);
                   top_predicted_words =
                     get_next_word self tokenized_words1 max_num_of_sentences start_string
               in map (\<lambda>word.
                         let sentence_seed = tokenized_words1 @ [word];
                             sentence = get_sentence self sentence_seed max_sentence_length
                         in get_true_case env (detokenize env sentence))
                      top_predicted_words)"

section \<open>Training from a file\<close>

text \<open>
  The values \<^verbatim>\<open>json.load\<close> returns (numbers are the integers), the exceptions the steps of
  \<^verbatim>\<open>fit\<close> raise, and the file system \<^verbatim>\<open>open\<close> reads: a name is absent, or names a file
  that may not be read, or a directory, or a file whose bytes do not decode to text, or a
  file with its text. \<^verbatim>\<open>open\<close> raises for the first three, the \<^verbatim>\<open>read\<close> inside
  \<^verbatim>\<open>json.load\<close> for the fourth. The JSON parser is a parameter that returns \<open>None\<close> on
  text that is not JSON.
\<close>

datatype json =
    JNull | JBool bool | JNumber int | JString string | JArray "json list"
  | JObject "(string \<times> json) list"

datatype error =
    FileNotFoundError | PermissionError | IsADirectoryError | UnicodeDecodeError
  | JSONDecodeError | KeyError | TypeError

datatype file_entry = Unreadable | Directory | Undecodable | Content string

record world =
  files :: "string \<Rightarrow> file_entry option"
  json_loads :: "string \<Rightarrow> json option"

definition open_read :: "world \<Rightarrow> string \<Rightarrow> error + string" where
  "open_read w filename =
     (case files w filename of
        None \<Rightarrow> Inl FileNotFoundError
      | Some Unreadable \<Rightarrow> Inl PermissionError
      | Some Directory \<Rightarrow> Inl IsADirectoryError
      | Some Undecodable \<Rightarrow> Inl UnicodeDecodeError
      | Some (Content text0) \<Rightarrow> Inr text0)"

definition json_load :: "world \<Rightarrow> string \<Rightarrow> error + json" where
  "json_load w filename =
     (case open_read w filename of
        Inl e \<Rightarrow> Inl e
      | Inr text0 \<Rightarrow> (case json_loads w text0 of None \<Rightarrow> Inl JSONDecodeError | Some j \<Rightarrow> Inr j))"

text \<open>\<^verbatim>\<open>value[key]\<close> with a string key, \<^verbatim>\<open>for x in value\<close>, and truth of a value.\<close>

fun subscript :: "json \<Rightarrow> string \<Rightarrow> error + json" where
  "subscript (JObject items) key =
     (case map_of items key of None \<Rightarrow> Inl KeyError | Some v \<Rightarrow> Inr v)"
| "subscript v key = Inl TypeError"

fun iterate :: "json \<Rightarrow> error + json list" where
  "iterate (JArray xs) = Inr xs"
| "iterate (JObject items) = Inr (map (\<lambda>item. JString (fst item)) items)"
| "iterate (JString s) = Inr (map (\<lambda>c. JString [c]) s)"
| "iterate v = Inl TypeError"

fun truthy :: "json \<Rightarrow> bool" where
  "truthy JNull = False"
| "truthy (JBool b) = b"
| "truthy (JNumber n) = (n \<noteq> 0)"
| "truthy (JString s) = (s \<noteq> [])"
| "truthy (JArray xs) = (xs \<noteq> [])"
| "truthy (JObject items) = (items \<noteq> [])"

text \<open>\<^verbatim>\<open>value in company_group_id_filter\<close> for a list of integers (\<^verbatim>\<open>True == 1\<close>).\<close>

fun member_of :: "json \<Rightarrow> int list \<Rightarrow> bool" where
  "member_of (JNumber n) ids = (n \<in> set ids)"
| "member_of (JBool b) ids = ((if b then 1 else 0) \<in> set ids)"
| "member_of v ids = False"

text \<open>\<^verbatim>\<open>util.get_operator_messages\<close>: the inner loop, the outer loop, the function.\<close>

fun messages_loop :: "json list \<Rightarrow> json list \<Rightarrow> error + json list" where
  "messages_loop [] operator_messages = Inr operator_messages"
| "messages_loop (message # messages) operator_messages =
     (case subscript message ''IsFromCustomer'' of
        Inl e \<Rightarrow> Inl e
      | Inr from_customer \<Rightarrow>
          if \<not> truthy from_customer then
            (case subscript message ''Text'' of
               Inl e \<Rightarrow> Inl e
             | Inr text0 \<Rightarrow> messages_loop messages (operator_messages @ [text0]))
          else messages_loop messages operator_messages)"

fun issues_loop :: "json list \<Rightarrow> int list option \<Rightarrow> json list \<Rightarrow> error + json list" where
  "issues_loop [] company_group_id_filter operator_messages = Inr operator_messages"
| "issues_loop (issue # issues) company_group_id_filter operator_messages =
     (case (case company_group_id_filter of
              None \<Rightarrow> Inr True
            | Some ids \<Rightarrow>
                (case subscript issue ''CompanyGroupId'' of
                   Inl e \<Rightarrow> Inl e
                 | Inr group_id \<Rightarrow> Inr (member_of group_id ids))) of
        Inl e \<Rightarrow> Inl e
      | Inr selected \<Rightarrow>
          if selected then
            (case subscript issue ''Messages'' of
               Inl e \<Rightarrow> Inl e
             | Inr ms \<Rightarrow>
                 (case iterate ms of
                    Inl e \<Rightarrow> Inl e
                  | Inr messages \<Rightarrow>
                      (case messages_loop messages operator_messages of
                         Inl e \<Rightarrow> Inl e
                       | Inr operator_messages1 \<Rightarrow>
                           issues_loop issues company_group_id_filter operator_messages1)))
          else issues_loop issues company_group_id_filter operator_messages)"

definition get_operator_messages :: "json \<Rightarrow> int list option \<Rightarrow> error + json list" where
  "get_operator_messages json_conversation_structure company_group_id_filter =
     (case subscript json_conversation_structure ''Issues'' of
        Inl e \<Rightarrow> Inl e
      | Inr v \<Rightarrow>
          (case iterate v of
             Inl e \<Rightarrow> Inl e
           | Inr issues \<Rightarrow> issues_loop issues company_group_id_filter []))"

text \<open>The tokenizer takes strings only: any other message text is a \<^verbatim>\<open>TypeError\<close>.\<close>

fun as_strings :: "json list \<Rightarrow> error + string list" where
  "as_strings [] = Inr []"
| "as_strings (JString s # vs) =
     (case as_strings vs of Inl e \<Rightarrow> Inl e | Inr ss \<Rightarrow> Inr (s # ss))"
| "as_strings (v # vs) = Inl TypeError"

text \<open>
  \<^verbatim>\<open>Autocompleter.fit\<close>, steps 1 to 6 (the tokenized training sentences) and the whole
  method. The only assignment to \<^verbatim>\<open>self.ngram_counter\<close> is the last statement, so an
  exception of any earlier step leaves the object as it was. The progress messages of
  \<^verbatim>\<open>verbose\<close> are not modelled.
\<close>

definition training_sentences ::
  "world \<Rightarrow> nlp \<Rightarrow> string \<Rightarrow> int list option \<Rightarrow> error + string list list" where
  "training_sentences w env json_filename company_group_id_filter =
     (case json_load w json_filename of
        Inl e \<Rightarrow> Inl e
      | Inr conversations \<Rightarrow>
          (case get_operator_messages conversations company_group_id_filter of
             Inl e \<Rightarrow> Inl e
           | Inr operator_values \<Rightarrow>
               (case as_strings operator_values of
                  Inl e \<Rightarrow> Inl e
                | Inr operator_messages \<Rightarrow>
                    let tokenized_sentences = sentence_tokenize env operator_messages;
                        tokenized_sentences1 = map (format_and_clean env) tokenized_sentences;
                        tokenized_sentences2 = map (spell_correction env) tokenized_sentences1;
                        tokenized_sentences3 = map (encode_entities env) tokenized_sentences2
                    in Inr (map (word_tokenize env) tokenized_sentences3))))"


text \<open>
  The count the counter holds for a word after a context at an order: \<^verbatim>\<open>unigrams[word]\<close>
  at order 1, \<^verbatim>\<open>self[order][context][word]\<close> above.
\<close>

definition count_of :: "NgramCounter \<Rightarrow> nat \<Rightarrow> string list \<Rightarrow> string \<Rightarrow> int" where
  "count_of c n context word =
     (if n = 1 then freq (unigrams c) word else freq (counts c n context) word)"

section \<open>The queries on shared lists\<close>

text \<open>
  Python passes lists by reference, and \<^verbatim>\<open>get_sentence\<close> appends to a list. To see which
  list, the two queries are modelled once more over a store of list objects: an address is
  an index into the store, \<^verbatim>\<open>list(x)\<close> and every list a query builds is a new object at the
  end of the store, \<^verbatim>\<open>append\<close> updates an object in place, and a query returns the address
  of its result with the new store. The argument is the address of a live object.
\<close>

type_synonym heap = "string list list"

definition alloc :: "heap \<Rightarrow> string list \<Rightarrow> nat \<times> heap" where
  "alloc h v = (length h, h @ [v])"

text \<open>\<^verbatim>\<open>get_next_word\<close>: the copy of the prefix and the result are new objects.\<close>

definition get_next_word_h ::
  "Autocompleter \<Rightarrow> heap \<Rightarrow> nat \<Rightarrow> int \<Rightarrow> string \<Rightarrow> nat \<times> heap" where
  "get_next_word_h self h prefix_string top_n start_string =
     (case ngram_counter self of
        None \<Rightarrow> alloc h []
      | Some c \<Rightarrow>
          if length (h ! prefix_string) < 1 then alloc h []
          else
            let (prefix_string1, h1) = alloc h (h ! prefix_string);
                conditional_word_tuple = last_two (h1 ! prefix_string1);
                number_of_words = N (unigrams c);
                predicted_words = most_common (getitem c conditional_word_tuple) number_of_words
            in alloc h1 (slice_to top_n
                 (filter (\<lambda>word. startswith word start_string) (map fst predicted_words))))"

text \<open>
  \<^verbatim>\<open>get_sentence\<close>: the guard returns the argument itself; otherwise \<^verbatim>\<open>sentence\<close> is the
  copy, and the loop appends to it.
\<close>

fun grow_h :: "Autocompleter \<Rightarrow> nat \<Rightarrow> nat \<Rightarrow> heap \<Rightarrow> nat \<times> heap" where
  "grow_h self 0 sentence h = (sentence, h)"
| "grow_h self (Suc i) sentence h =
     (let (word, h1) = get_next_word_h self h sentence 1 [] in
      if length (h1 ! word) = 0 \<or> hd (h1 ! word) = RIGHT_SENT_PAD then (sentence, h1)
      else grow_h self i sentence (h1[sentence := h1 ! sentence @ [hd (h1 ! word)]]))"

definition get_sentence_h :: "Autocompleter \<Rightarrow> heap \<Rightarrow> nat \<Rightarrow> int \<Rightarrow> nat \<times> heap" where
  "get_sentence_h self h prefix_string max_sentence_length =
     (case ngram_counter self of
        None \<Rightarrow> alloc h []
      | Some c \<Rightarrow>
          if int (length (h ! prefix_string)) \<ge> max_sentence_length \<or> length (h ! prefix_string) = 0
          then (prefix_string, h)
          else
            let (prefix_string1, h1) = alloc h (h ! prefix_string)
            in grow_h self (nat (max_sentence_length - int (length (h1 ! prefix_string1))))
                 prefix_string1 h1)"
section \<open>Notions the properties are stated with\<close>

text \<open>
  The words a ranking query considers, after the filter on \<open>start_string\<close> and before
  the cut to \<open>top_n\<close>.
\<close>

definition matching_candidates :: "Autocompleter \<Rightarrow> string list \<Rightarrow> string \<Rightarrow> string list" where
  "matching_candidates self prefix_string start_string =
     (case ngram_counter self of
        None \<Rightarrow> []
      | Some c \<Rightarrow>
          if prefix_string = [] then []
          else filter (\<lambda>word. startswith word start_string)
                 (map fst (most_common (getitem c (last_two prefix_string)) (N (unigrams c)))))"

text \<open>
  Stand-ins for the external text libraries, used to run the model on concrete inputs: the
  lowering covers the ASCII letters only, the tokenizers split at spaces or not at all,
  everything else returns its input.
\<close>

definition ascii_lower :: "char \<Rightarrow> char" where
  "ascii_lower c = (let k = (of_char c :: nat) in if 65 \<le> k \<and> k \<le> 90 then char_of (k + 32) else c)"

fun split_spaces :: "string \<Rightarrow> string \<Rightarrow> string list" where
  "split_spaces acc [] = (if acc = [] then [] else [acc])"
| "split_spaces acc (c # cs) =
     (if c = CHR '' '' then (if acc = [] then [] else [acc]) @ split_spaces [] cs
      else split_spaces (acc @ [c]) cs)"

definition plain_nlp :: nlp where
  "plain_nlp = \<lparr>lower = map ascii_lower, sent_tokenize = (\<lambda>s. [s]), word_tokenize = split_spaces [],
     detokenize = (\<lambda>ws. concat (map (\<lambda>w. w @ '' '') ws)), autocorrect_sentence = (\<lambda>s. s),
     ents = (\<lambda>s. []), truecase = (\<lambda>s. s)\<rparr>"

text \<open>A small trained model for concrete runs.\<close>

definition sample_corpus :: "string list list" where
  "sample_corpus =
     [[''how'', ''can'', ''i'', ''help'', ''you''],
      [''how'', ''can'', ''i'', ''assist'', ''you''],
      [''how'', ''can'', ''i'', ''assist''],
      [''what'', ''is'', ''your'', ''name'']]"

definition sample_model :: Autocompleter where
  "sample_model = \<lparr>ngram_counter = Some (fit_counter sample_corpus)\<rparr>"

text \<open>The n-grams of a training run, in the order in which the counter receives them.\<close>

definition training_stream :: "string list list \<Rightarrow> string list list" where
  "training_stream tokenized_words =
     concat (map (\<lambda>sentence. ngrams sentence 3 True True LEFT_SENT_PAD RIGHT_SENT_PAD) tokenized_words) @
     concat (map (\<lambda>sentence. ngrams sentence 2 True True LEFT_SENT_PAD RIGHT_SENT_PAD) tokenized_words) @
     concat (map (\<lambda>sentence. ngrams sentence 1 True True LEFT_SENT_PAD RIGHT_SENT_PAD) tokenized_words)"

text \<open>
  Counting as the specification words it: pad the sentence with \<open>n - 1\<close> sentinels on each
  side, slide a window of width \<open>n\<close> over the padded sequence, and count the windows that
  are the context followed by the word, over all sentences.
\<close>

definition spec_padded :: "nat \<Rightarrow> string list \<Rightarrow> string list" where
  "spec_padded n sentence =
     replicate (n - 1) LEFT_SENT_PAD @ sentence @ replicate (n - 1) RIGHT_SENT_PAD"

definition spec_windows :: "nat \<Rightarrow> string list \<Rightarrow> string list list" where
  "spec_windows n xs = map (\<lambda>i. take n (drop i xs)) [0 ..< length xs + 1 - n]"

definition spec_count :: "string list list \<Rightarrow> nat \<Rightarrow> string list \<Rightarrow> string \<Rightarrow> int" where
  "spec_count sentences n context word =
     sum_list (map (\<lambda>sentence.
        int (count_list (spec_windows n (spec_padded n sentence)) (context @ [word]))) sentences)"

text \<open>An n-gram of order \<open>n\<close> whose context is \<open>ctx\<close>.\<close>

definition follows :: "nat \<Rightarrow> string list \<Rightarrow> string list \<Rightarrow> bool" where
  "follows n ctx g = (length g = n \<and> butlast g = ctx)"

text \<open>The position of the first occurrence of an item in a list (the length of the list when there is none).\<close>

definition first_index :: "'a list \<Rightarrow> 'a \<Rightarrow> nat" where
  "first_index xs x = length (takeWhile (\<lambda>y. y \<noteq> x) xs)"

text \<open>
  The position in the training stream at which a word is first counted after a context, and
  the ranking the specification asks for: a higher count first, and among equal counts the
  word that was counted first.
\<close>

definition first_seen :: "string list list \<Rightarrow> string list \<Rightarrow> string \<Rightarrow> nat" where
  "first_seen sentences context word =
     length (takeWhile (\<lambda>ngram. ngram \<noteq> context @ [word]) (training_stream sentences))"

definition ranks_before :: "string list list \<Rightarrow> string list \<Rightarrow> string \<Rightarrow> string \<Rightarrow> bool" where
  "ranks_before sentences context u v =
     (let n = length context + 1 in
      spec_count sentences n context u > spec_count sentences n context v \<or>
      (spec_count sentences n context u = spec_count sentences n context v \<and>
       first_seen sentences context u < first_seen sentences context v))"








text \<open>
  The ranking as the specification words it: the words seen after the context in the padded
  windows of order \<open>n\<close>, each once and in the order of first appearance, sorted by count
  with the highest first; the sort is stable, so words of equal count keep that order.
\<close>

definition spec_followers :: "string list list \<Rightarrow> nat \<Rightarrow> string list \<Rightarrow> string list" where
  "spec_followers sentences n context =
     map last (filter (\<lambda>window. butlast window = context)
       (concat (map (\<lambda>sentence. spec_windows n (spec_padded n sentence)) sentences)))"

definition first_seen_order :: "'a list \<Rightarrow> 'a list" where
  "first_seen_order xs = rev (remdups (rev xs))"

definition spec_ranked :: "string list list \<Rightarrow> nat \<Rightarrow> string list \<Rightarrow> string list" where
  "spec_ranked sentences n context =
     sort_key (\<lambda>word. - spec_count sentences n context word)
       (first_seen_order (spec_followers sentences n context))"

section \<open>Growing a sentence\<close>

lemma get_next_word_slice:
  "get_next_word self p top_n s = slice_to top_n (matching_candidates self p s)"
  by (cases p)
    (simp_all add: get_next_word_def matching_candidates_def Let_def slice_to_def split: option.splits)

lemma get_next_word_Nil: "get_next_word self [] top_n s = []"
  by (simp add: get_next_word_def split: option.splits)

lemma get_next_word_None: "ngram_counter self = None \<Longrightarrow> get_next_word self p top_n s = []"
  by (simp add: get_next_word_def)

lemma grow_step:
  assumes "get_next_word self s 1 [] \<noteq> []" and "hd (get_next_word self s 1 []) \<noteq> RIGHT_SENT_PAD"
  shows "grow self (Suc i) s = grow self i (s @ [hd (get_next_word self s 1 [])])"
  using assms by (simp add: Let_def)

lemma grow_halt:
  assumes "get_next_word self s 1 [] = [] \<or> hd (get_next_word self s 1 []) = RIGHT_SENT_PAD"
  shows "grow self (Suc i) s = s"
  using assms by (simp add: Let_def)

lemma grow_length: "length (grow self i s) \<le> length s + i"
proof (induction i arbitrary: s)
  case 0
  then show ?case by simp
next
  case (Suc i)
  have "length (grow self i (s @ [w])) \<le> length s + Suc i" for w
    using Suc.IH [of "s @ [w]"] by simp
  then show ?case by (simp add: Let_def)
qed

lemma grow_stops:
  "length (grow self i s) < length s + i \<Longrightarrow>
     get_next_word self (grow self i s) 1 [] = [] \<or>
     hd (get_next_word self (grow self i s) 1 []) = RIGHT_SENT_PAD"
proof (induction i arbitrary: s)
  case 0
  then show ?case by simp
next
  case (Suc i)
  show ?case
  proof (cases "get_next_word self s 1 [] = [] \<or> hd (get_next_word self s 1 []) = RIGHT_SENT_PAD")
    case True
    then show ?thesis by (simp only: grow_halt [OF True])
  next
    case False
    then have eq: "grow self (Suc i) s = grow self i (s @ [hd (get_next_word self s 1 [])])"
      by (simp add: grow_step)
    with Suc.prems have "length (grow self i (s @ [hd (get_next_word self s 1 [])]))
        < length (s @ [hd (get_next_word self s 1 [])]) + i"
      by simp
    from Suc.IH [OF this] show ?thesis unfolding eq .
  qed
qed

lemma grow_no_pad:
  "RIGHT_SENT_PAD \<notin> set s \<Longrightarrow> RIGHT_SENT_PAD \<notin> set (grow self i s)"
proof (induction i arbitrary: s)
  case 0
  then show ?case by simp
next
  case (Suc i)
  show ?case
  proof (cases "get_next_word self s 1 [] = [] \<or> hd (get_next_word self s 1 []) = RIGHT_SENT_PAD")
    case True
    show ?thesis using Suc.prems unfolding grow_halt [OF True] .
  next
    case False
    then have eq: "grow self (Suc i) s = grow self i (s @ [hd (get_next_word self s 1 [])])"
      by (simp add: grow_step)
    have "RIGHT_SENT_PAD \<notin> set (s @ [hd (get_next_word self s 1 [])])"
      using False Suc.prems by auto
    from Suc.IH [OF this] show ?thesis unfolding eq .
  qed
qed

lemma get_sentence_grow:
  assumes "ngram_counter self = Some c"
    and "\<not> (int (length prefix_string) \<ge> max_sentence_length \<or> length prefix_string = 0)"
  shows "get_sentence self prefix_string max_sentence_length
           = grow self (nat (max_sentence_length - int (length prefix_string))) prefix_string"
  using assms by (simp add: get_sentence_def)

lemma get_sentence_unchanged:
  assumes "ngram_counter self = Some c"
    and "int (length prefix_string) \<ge> max_sentence_length \<or> length prefix_string = 0"
  shows "get_sentence self prefix_string max_sentence_length = prefix_string"
  using assms by (auto simp: get_sentence_def)

lemma get_sentence_None:
  "ngram_counter self = None \<Longrightarrow> get_sentence self prefix_string max_sentence_length = []"
  by (simp add: get_sentence_def)

lemma grow_keeps_prefix: "take (length s) (grow self i s) = s"
proof (induction i arbitrary: s)
  case 0
  then show ?case by simp
next
  case (Suc i)
  show ?case
  proof (cases "get_next_word self s 1 [] = [] \<or> hd (get_next_word self s 1 []) = RIGHT_SENT_PAD")
    case True
    show ?thesis unfolding grow_halt [OF True] by simp
  next
    case False
    let ?s1 = "s @ [hd (get_next_word self s 1 [])]"
    have eq: "grow self (Suc i) s = grow self i ?s1"
      using False by (simp add: grow_step)
    have "take (length ?s1) (grow self i ?s1) = ?s1" by (rule Suc.IH)
    then have "take (length s) (take (length ?s1) (grow self i ?s1)) = take (length s) ?s1"
      by (simp only:)
    then show ?thesis unfolding eq by (simp add: min_def)
  qed
qed

section \<open>Counting\<close>

lemma freq_incr: "freq (incr w fd) v = freq fd v + (if v = w then 1 else 0)"
  by (induction fd) auto

lemma update_fold: "update ngram_text c = fold update_ngram (concat ngram_text) c"
proof -
  have "fold (\<lambda>sent c'. fold update_ngram sent c') xss c0 = fold update_ngram (concat xss) c0"
    for xss c0
    by (induction xss arbitrary: c0) simp_all
  then show ?thesis by (simp add: update_def)
qed

lemma fit_counter_stream:
  "fit_counter ss = fold update_ngram (training_stream ss) empty_counter"
  by (simp add: fit_counter_def update_fold training_stream_def Let_def)

lemma split_last: "n \<ge> 1 \<Longrightarrow> length g = n \<Longrightarrow> (g = ctx @ [w]) = (butlast g = ctx \<and> last g = w)"
  by (cases g rule: rev_cases) auto

lemma count_of_update_ngram:
  assumes "n \<ge> 1" and "length ctx = n - 1"
  shows "count_of (update_ngram g c) n ctx w
           = count_of c n ctx w + (if g = ctx @ [w] then 1 else 0)"
proof (cases "length g = 1")
  case True
  then obtain x where g: "g = [x]" by (cases g) auto
  show ?thesis
  proof (cases "n = 1")
    case True
    with assms have "ctx = []" by simp
    then show ?thesis using True g
      by (auto simp: count_of_def update_ngram_def freq_incr)
  next
    case False
    with assms have "ctx \<noteq> []" by auto
    then have "g \<noteq> ctx @ [w]" using g by auto
    then show ?thesis using False g
      by (simp add: count_of_def update_ngram_def)
  qed
next
  case False
  show ?thesis
  proof (cases "length g = n")
    case True
    with False have n1: "n \<noteq> 1" by simp
    have "(g = ctx @ [w]) = (butlast g = ctx \<and> last g = w)"
      using split_last [OF assms(1) True] .
    then show ?thesis using False True n1
      by (auto simp: count_of_def update_ngram_def Let_def freq_incr)
  next
    case ne: False
    have "g \<noteq> ctx @ [w]"
      using ne assms by auto
    then show ?thesis using False ne
      by (auto simp: count_of_def update_ngram_def Let_def)
  qed
qed

lemma count_of_fold:
  assumes "n \<ge> 1" and "length ctx = n - 1"
  shows "count_of (fold update_ngram gs c) n ctx w
           = count_of c n ctx w + int (count_list gs (ctx @ [w]))"
proof (induction gs arbitrary: c)
  case Nil
  then show ?case by simp
next
  case (Cons g gs)
  show ?case
    by (simp add: Cons.IH count_of_update_ngram [OF assms])
qed

lemma slide_windows:
  "slide history xs = map (\<lambda>i. take (Suc (length history)) (drop i (history @ xs))) [0 ..< length xs]"
proof (induction xs arbitrary: history)
  case Nil
  then show ?case by simp
next
  case (Cons x xs)
  let ?h = "tl (history @ [x])"
  have len: "length ?h = length history" by simp
  have tail: "drop (Suc i) (history @ x # xs) = drop i (?h @ xs)" for i
    by (cases history) simp_all
  have "map (\<lambda>i. take (Suc (length history)) (drop i (history @ x # xs))) [0 ..< length (x # xs)]
        = take (Suc (length history)) (history @ x # xs)
          # map (\<lambda>i. take (Suc (length history)) (drop (Suc i) (history @ x # xs))) [0 ..< length xs]"
    by (simp add: upt_conv_Cons map_Suc_upt [symmetric] del: upt_Suc)
  also have "map (\<lambda>i. take (Suc (length history)) (drop (Suc i) (history @ x # xs))) [0 ..< length xs]
      = map (\<lambda>i. take (Suc (length ?h)) (drop i (?h @ xs))) [0 ..< length xs]"
    by (simp only: tail len)
  also have "\<dots> = slide ?h xs"
    by (rule Cons.IH [symmetric])
  also have "take (Suc (length history)) (history @ x # xs) = history @ [x]"
    by simp
  finally show ?case by simp
qed

lemma ngrams_spec:
  assumes "n \<ge> 1"
  shows "ngrams s n True True LEFT_SENT_PAD RIGHT_SENT_PAD = spec_windows n (spec_padded n s)"
proof -
  let ?p = "spec_padded n s"
  have p: "pad_sequence s n True True LEFT_SENT_PAD RIGHT_SENT_PAD = ?p"
    by (simp add: pad_sequence_def spec_padded_def)
  have long: "n - 1 \<le> length ?p" by (simp add: spec_padded_def)
  have "slide (take (n - 1) ?p) (drop (n - 1) ?p)
          = map (\<lambda>i. take n (drop i ?p)) [0 ..< length ?p - (n - 1)]"
    using assms long by (simp add: slide_windows min_def)
  moreover have "length ?p - (n - 1) = length ?p + 1 - n"
    using assms long by simp
  ultimately show ?thesis
    using long by (simp add: ngrams_def p spec_windows_def Let_def)
qed

lemma spec_windows_length: "g \<in> set (spec_windows n xs) \<Longrightarrow> length g = n"
  by (auto simp: spec_windows_def)

lemma count_list_other_length:
  "\<forall>g \<in> set gs. length g \<noteq> length x \<Longrightarrow> count_list gs x = 0"
  by (induction gs) auto

lemma count_list_concat_map:
  "int (count_list (concat (map f ss)) x) = sum_list (map (\<lambda>s. int (count_list (f s) x)) ss)"
  by (induction ss) simp_all

lemma ngrams_length:
  assumes "k \<ge> 1" and "g \<in> set (ngrams s k True True LEFT_SENT_PAD RIGHT_SENT_PAD)"
  shows "length g = k"
  using assms by (simp add: ngrams_spec spec_windows_length)

lemma order_count_other:
  assumes "k \<ge> 1" and "length x \<noteq> k"
  shows "count_list (concat (map (\<lambda>s. ngrams s k True True LEFT_SENT_PAD RIGHT_SENT_PAD) ss)) x = 0"
proof (rule count_list_other_length)
  show "\<forall>g \<in> set (concat (map (\<lambda>s. ngrams s k True True LEFT_SENT_PAD RIGHT_SENT_PAD) ss)).
          length g \<noteq> length x"
    using assms ngrams_length [OF assms(1)] by auto
qed

lemma order_count:
  assumes "k \<ge> 1"
  shows "int (count_list (concat (map (\<lambda>s. ngrams s k True True LEFT_SENT_PAD RIGHT_SENT_PAD) ss)) x)
           = sum_list (map (\<lambda>s. int (count_list (spec_windows k (spec_padded k s)) x)) ss)"
  by (simp add: count_list_concat_map ngrams_spec [OF assms])

lemma stream_count:
  assumes "n \<in> {1, 2, 3}" and "length x = n"
  shows "int (count_list (training_stream ss) x)
           = sum_list (map (\<lambda>s. int (count_list (spec_windows n (spec_padded n s)) x)) ss)"
proof -
  have c: "int (count_list (training_stream ss) x)
      = int (count_list (concat (map (\<lambda>s. ngrams s 3 True True LEFT_SENT_PAD RIGHT_SENT_PAD) ss)) x)
      + int (count_list (concat (map (\<lambda>s. ngrams s 2 True True LEFT_SENT_PAD RIGHT_SENT_PAD) ss)) x)
      + int (count_list (concat (map (\<lambda>s. ngrams s 1 True True LEFT_SENT_PAD RIGHT_SENT_PAD) ss)) x)"
    by (simp add: training_stream_def)
  from assms(1) consider "n = 1" | "n = 2" | "n = 3" by auto
  then show ?thesis
  proof cases
    case 1
    with assms(2) have "length x \<noteq> 3" "length x \<noteq> 2" by simp_all
    then show ?thesis
      unfolding c 1 by (simp add: order_count_other order_count)
  next
    case 2
    with assms(2) have "length x \<noteq> 3" "length x \<noteq> 1" by simp_all
    then show ?thesis
      unfolding c 2 by (simp add: order_count_other order_count)
  next
    case 3
    with assms(2) have "length x \<noteq> 2" "length x \<noteq> 1" by simp_all
    then show ?thesis
      unfolding c 3 by (simp add: order_count_other order_count)
  qed
qed

lemma count_of_empty: "count_of empty_counter n ctx w = 0"
  by (simp add: count_of_def empty_counter_def)

lemma count_of_fit:
  assumes "n \<in> {1, 2, 3}" and "length ctx = n - 1"
  shows "count_of (fit_counter ss) n ctx w = spec_count ss n ctx w"
proof -
  from assms have n: "n \<ge> 1" and len: "length (ctx @ [w]) = n" by auto
  have "count_of (fit_counter ss) n ctx w = int (count_list (training_stream ss) (ctx @ [w]))"
    by (simp add: fit_counter_stream count_of_fold [OF n assms(2)] count_of_empty)
  also have "\<dots> = spec_count ss n ctx w"
    unfolding spec_count_def by (rule stream_count [OF assms(1) len])
  finally show ?thesis .
qed

section \<open>Distributions and ranking\<close>

subsection \<open>The distribution of a context\<close>

lemma counts_update_ngram:
  assumes "n \<ge> 2"
  shows "counts (update_ngram g c) n ctx
           = (if follows n ctx g then incr (last g) (counts c n ctx) else counts c n ctx)"
  using assms by (auto simp: update_ngram_def follows_def Let_def)

lemma counts_fold:
  assumes "n \<ge> 2"
  shows "counts (fold update_ngram gs c) n ctx
           = fold incr (map last (filter (follows n ctx) gs)) (counts c n ctx)"
proof (induction gs arbitrary: c)
  case Nil
  then show ?case by simp
next
  case (Cons g gs)
  show ?case by (simp add: Cons.IH counts_update_ngram [OF assms])
qed

lemma counts_fit:
  assumes "n \<ge> 2"
  shows "counts (fit_counter ss) n ctx
           = fold incr (map last (filter (follows n ctx) (training_stream ss))) []"
  by (simp add: fit_counter_stream counts_fold [OF assms] empty_counter_def)

subsection \<open>Keys in the order of first insertion\<close>

lemma keys_incr_old: "w \<in> fst ` set fd \<Longrightarrow> map fst (incr w fd) = map fst fd"
proof (induction fd)
  case Nil
  then show ?case by simp
next
  case (Cons a fd)
  obtain k c where a: "a = (k, c)" by (cases a)
  show ?case
  proof (cases "k = w")
    case True
    then show ?thesis by (simp add: a)
  next
    case False
    with Cons.prems a have "w \<in> fst ` set fd" by auto
    with Cons.IH False a show ?thesis by simp
  qed
qed

lemma keys_incr_new: "w \<notin> fst ` set fd \<Longrightarrow> map fst (incr w fd) = map fst fd @ [w]"
  by (induction fd) auto

lemma keys_incr:
  "map fst (incr w fd) = (if w \<in> set (map fst fd) then map fst fd else map fst fd @ [w])"
  by (simp add: keys_incr_old keys_incr_new)

lemma fold_incr_snoc: "fold incr (ws @ [w]) fd = incr w (fold incr ws fd)"
  by simp

lemma keys_tally: "set (map fst (fold incr ws [])) = set ws"
proof (induction ws rule: rev_induct)
  case Nil
  then show ?case by simp
next
  case (snoc w ws)
  show ?case
    unfolding fold_incr_snoc keys_incr using snoc.IH by auto
qed

lemma first_index_less: "x \<in> set xs \<Longrightarrow> first_index xs x < length xs"
  unfolding first_index_def by (induction xs) auto

lemma first_index_append_old: "x \<in> set xs \<Longrightarrow> first_index (xs @ ys) x = first_index xs x"
  by (simp add: first_index_def takeWhile_append1 [where P = "\<lambda>y. y \<noteq> x"])

lemma first_index_append_new: "x \<notin> set xs \<Longrightarrow> first_index (xs @ [x]) x = length xs"
  unfolding first_index_def by (induction xs) auto

lemma keys_tally_sorted:
  "sorted_wrt (\<lambda>u v. first_index ws u < first_index ws v) (map fst (fold incr ws []))"
proof (induction ws rule: rev_induct)
  case Nil
  then show ?case by simp
next
  case (snoc w ws)
  let ?ks = "map fst (fold incr ws [])"
  have ks: "set ?ks = set ws" by (rule keys_tally)
  have old: "sorted_wrt (\<lambda>u v. first_index (ws @ [w]) u < first_index (ws @ [w]) v) ?ks"
  proof (rule sorted_wrt_mono_rel [OF _ snoc.IH])
    fix u v
    assume "u \<in> set ?ks" and "v \<in> set ?ks" and "first_index ws u < first_index ws v"
    then show "first_index (ws @ [w]) u < first_index (ws @ [w]) v"
      using ks by (simp add: first_index_append_old)
  qed
  show ?case
  proof (cases "w \<in> set ws")
    case True
    then show ?thesis
      unfolding fold_incr_snoc keys_incr using old ks by simp
  next
    case False
    have "first_index (ws @ [w]) u < first_index (ws @ [w]) w" if "u \<in> set ws" for u
      using that False by (simp add: first_index_append_old first_index_append_new first_index_less)
    then have "\<forall>u \<in> set ?ks. first_index (ws @ [w]) u < first_index (ws @ [w]) w"
      unfolding ks by blast
    moreover have "map fst (fold incr (ws @ [w]) []) = ?ks @ [w]"
      unfolding fold_incr_snoc keys_incr using ks False by simp
    ultimately show ?thesis
      using old by (simp only: sorted_wrt_append) simp
  qed
qed

lemma keys_tally_distinct: "distinct (map fst (fold incr ws []))"
proof (induction ws rule: rev_induct)
  case Nil
  then show ?case by simp
next
  case (snoc w ws)
  have ks: "set (map fst (fold incr ws [])) = set ws" by (rule keys_tally)
  show ?case
    unfolding fold_incr_snoc keys_incr using snoc.IH ks by simp
qed

lemma freq_tally: "freq (fold incr ws fd) w = freq fd w + int (count_list ws w)"
  by (induction ws arbitrary: fd) (simp_all add: freq_incr)

lemma freq_item: "distinct (map fst fd) \<Longrightarrow> (w, k) \<in> set fd \<Longrightarrow> freq fd w = k"
  by (induction fd) (auto simp: rev_image_eqI)

lemma item_tally:
  assumes "(w, k) \<in> set (fold incr ws [])"
  shows "k = int (count_list ws w)"
  using freq_item [OF keys_tally_distinct assms] by (simp add: freq_tally)

subsection \<open>Stable sorting\<close>

lemma insort_key_tie_break:
  assumes "\<forall>y \<in> set ys. Q x y"
    and "sorted_wrt (\<lambda>a b. f a < f b \<or> (f a = f b \<and> Q a b)) ys"
  shows "sorted_wrt (\<lambda>a b. f a < f b \<or> (f a = f b \<and> Q a b)) (insort_key f x ys)"
  using assms
proof (induction ys)
  case Nil
  then show ?case by simp
next
  case (Cons y ys)
  show ?case
  proof (cases "f x \<le> f y")
    case True
    have "f x < f z \<or> (f x = f z \<and> Q x z)" if "z \<in> set (y # ys)" for z
    proof -
      have "f y \<le> f z" using that Cons.prems(2) by auto
      with True have "f x \<le> f z" by simp
      moreover have "Q x z" using that Cons.prems(1) by auto
      ultimately show ?thesis by auto
    qed
    then show ?thesis using True Cons.prems(2) by simp
  next
    case False
    have "sorted_wrt (\<lambda>a b. f a < f b \<or> (f a = f b \<and> Q a b)) (insort_key f x ys)"
      using Cons.IH Cons.prems by simp
    moreover have "f y < f x" using False by simp
    ultimately show ?thesis using False Cons.prems(2) by (auto simp: set_insort_key)
  qed
qed

lemma sort_key_tie_break:
  assumes "sorted_wrt Q xs"
  shows "sorted_wrt (\<lambda>a b. f a < f b \<or> (f a = f b \<and> Q a b)) (sort_key f xs)"
  using assms
proof (induction xs)
  case Nil
  then show ?case by simp
next
  case (Cons x xs)
  have "\<forall>y \<in> set (sort_key f xs). Q x y" using Cons.prems by simp
  moreover have "sorted_wrt (\<lambda>a b. f a < f b \<or> (f a = f b \<and> Q a b)) (sort_key f xs)"
    using Cons by simp
  ultimately show ?case by (simp add: insort_key_tie_break)
qed

lemma sorted_wrt_take: "sorted_wrt R xs \<Longrightarrow> sorted_wrt R (take k xs)"
  by (metis append_take_drop_id sorted_wrt_append)

lemma sorted_wrt_slice_to: "sorted_wrt R xs \<Longrightarrow> sorted_wrt R (slice_to k xs)"
  by (simp add: slice_to_def sorted_wrt_take)

lemma most_common_sorted:
  assumes "sorted_wrt Q fd"
  shows "sorted_wrt (\<lambda>a b. snd a > snd b \<or> (snd a = snd b \<and> Q a b)) (most_common fd n)"
proof -
  have "sorted_wrt (\<lambda>a b. - snd a < - snd b \<or> (- snd a = - snd b \<and> Q a b))
          (sort_key (\<lambda>item. - snd item) fd)"
    by (rule sort_key_tie_break [OF assms])
  then have "sorted_wrt (\<lambda>a b. snd a > snd b \<or> (snd a = snd b \<and> Q a b))
          (sort_key (\<lambda>item. - snd item) fd)"
    by simp
  then show ?thesis unfolding most_common_def by (rule sorted_wrt_take)
qed

lemma most_common_subset: "set (most_common fd n) \<subseteq> set fd"
  unfolding most_common_def by (metis set_sort set_take_subset)

subsection \<open>First positions in the stream\<close>

lemma first_index_follows:
  assumes "length ctx = n - 1" and "n \<ge> 1"
  shows "first_index (map last (filter (follows n ctx) gs)) w
           = length (filter (follows n ctx) (takeWhile (\<lambda>g. g \<noteq> ctx @ [w]) gs))"
proof (induction gs)
  case Nil
  then show ?case by (simp add: first_index_def)
next
  case (Cons g gs)
  have target: "follows n ctx (ctx @ [w])" using assms by (simp add: follows_def)
  show ?case
  proof (cases "follows n ctx g")
    case True
    then have ne: "g \<noteq> []" and b: "butlast g = ctx"
      using assms(2) by (auto simp: follows_def)
    have g: "g = butlast g @ [last g]"
      using append_butlast_last_id [OF ne] by simp
    have "(g = ctx @ [w]) = (last g = w)"
      using g b by (metis butlast_snoc last_snoc)
    then show ?thesis using True Cons.IH by (auto simp: first_index_def)
  next
    case False
    with target have "g \<noteq> ctx @ [w]" by auto
    then show ?thesis using False Cons.IH by (simp add: first_index_def)
  qed
qed

lemma filter_take_mono:
  assumes "i \<le> j"
  shows "length (filter P (take i xs)) \<le> length (filter P (take j xs))"
proof -
  from assms obtain k where j: "j = i + k" using le_Suc_ex by blast
  show ?thesis unfolding j take_add by simp
qed

lemma first_index_stream_mono:
  assumes "length ctx = n - 1" and "n \<ge> 1"
    and "first_index (map last (filter (follows n ctx) gs)) u
           < first_index (map last (filter (follows n ctx) gs)) v"
  shows "first_index gs (ctx @ [u]) < first_index gs (ctx @ [v])"
proof (rule ccontr)
  assume "\<not> first_index gs (ctx @ [u]) < first_index gs (ctx @ [v])"
  then have le: "first_index gs (ctx @ [v]) \<le> first_index gs (ctx @ [u])" by simp
  have tw: "takeWhile (\<lambda>g. g \<noteq> x) gs = take (first_index gs x) gs" for x
    unfolding first_index_def by (rule takeWhile_eq_take)
  have "first_index (map last (filter (follows n ctx) gs)) v
          \<le> first_index (map last (filter (follows n ctx) gs)) u"
    unfolding first_index_follows [OF assms(1,2)] tw by (rule filter_take_mono [OF le])
  with assms(3) show False by simp
qed

subsection \<open>The distribution a query reads\<close>

lemma last_two_min: "length (last_two p) = min (length p) 2"
  unfolding last_two_def length_drop by arith

lemma last_two_length: "p \<noteq> [] \<Longrightarrow> length (last_two p) = 1 \<or> length (last_two p) = 2"
proof -
  assume "p \<noteq> []"
  then have "length p \<ge> 1" by (cases p) simp_all
  then show ?thesis unfolding last_two_min by arith
qed

lemma last_two_long: "length p \<ge> 2 \<Longrightarrow> length (last_two p) = 2"
  by (simp add: last_two_def)

lemma last_two_single: "length p = 1 \<Longrightarrow> last_two p = p"
  by (simp add: last_two_def)

lemma first_seen_index: "first_seen ss ctx w = first_index (training_stream ss) (ctx @ [w])"
  by (simp add: first_seen_def first_index_def)

lemma dist_items:
  assumes "n = 2 \<or> n = 3" and "length ctx = n - 1"
    and "(w, k) \<in> set (counts (fit_counter ss) n ctx)"
  shows "k = spec_count ss n ctx w" and "k > 0"
proof -
  let ?ws = "map last (filter (follows n ctx) (training_stream ss))"
  from assms(1) have n2: "n \<ge> 2" and n3: "n \<in> {1, 2, 3}" and n1: "n \<noteq> 1" by auto
  have fd: "counts (fit_counter ss) n ctx = fold incr ?ws []"
    by (rule counts_fit [OF n2])
  from assms(3) have k: "k = int (count_list ?ws w)"
    unfolding fd by (rule item_tally)
  have "freq (counts (fit_counter ss) n ctx) w = int (count_list ?ws w)"
    unfolding fd by (simp add: freq_tally)
  then have "count_of (fit_counter ss) n ctx w = k"
    using k n1 by (simp add: count_of_def)
  then show "k = spec_count ss n ctx w"
    using count_of_fit [OF n3 assms(2), of ss w] by simp
  have "w \<in> set (map fst (fold incr ?ws []))"
    using assms(3) unfolding fd by (metis fst_conv image_eqI set_map)
  then have "w \<in> set ?ws" unfolding keys_tally .
  then have "count_list ?ws w \<noteq> 0" by (simp only: count_list_0_iff not_not)
  then have "count_list ?ws w > 0" by simp
  then show "k > 0" using k by simp
qed

lemma dist_order:
  assumes "n = 2 \<or> n = 3" and "length ctx = n - 1"
  shows "sorted_wrt (\<lambda>a b. first_seen ss ctx (fst a) < first_seen ss ctx (fst b))
           (counts (fit_counter ss) n ctx)"
proof -
  let ?ws = "map last (filter (follows n ctx) (training_stream ss))"
  from assms(1) have n2: "n \<ge> 2" and n1: "n \<ge> 1" by auto
  have fd: "counts (fit_counter ss) n ctx = fold incr ?ws []"
    by (rule counts_fit [OF n2])
  have "sorted_wrt (\<lambda>u v. first_index ?ws u < first_index ?ws v) (map fst (fold incr ?ws []))"
    by (rule keys_tally_sorted)
  then have "sorted_wrt (\<lambda>u v. first_seen ss ctx u < first_seen ss ctx v) (map fst (fold incr ?ws []))"
    by (rule sorted_wrt_mono_rel [rotated])
      (simp add: first_seen_index first_index_stream_mono [OF assms(2) n1])
  then show ?thesis unfolding fd by (simp add: sorted_wrt_map)
qed

lemma ranked_items:
  assumes "n = 2 \<or> n = 3" and "length ctx = n - 1"
  shows "sorted_wrt (\<lambda>a b. ranks_before ss ctx (fst a) (fst b))
           (most_common (counts (fit_counter ss) n ctx) m)"
proof -
  let ?fd = "counts (fit_counter ss) n ctx"
  have n: "n = length ctx + 1" using assms by auto
  have "sorted_wrt (\<lambda>a b. snd a > snd b \<or>
            (snd a = snd b \<and> first_seen ss ctx (fst a) < first_seen ss ctx (fst b)))
          (most_common ?fd m)"
    by (rule most_common_sorted [OF dist_order [OF assms]])
  then show ?thesis
  proof (rule sorted_wrt_mono_rel [rotated])
    fix a b
    assume a: "a \<in> set (most_common ?fd m)" and b: "b \<in> set (most_common ?fd m)"
      and r: "snd a > snd b \<or>
            (snd a = snd b \<and> first_seen ss ctx (fst a) < first_seen ss ctx (fst b))"
    from a have "(fst a, snd a) \<in> set ?fd" using most_common_subset by fastforce
    then have ca: "snd a = spec_count ss n ctx (fst a)" by (rule dist_items(1) [OF assms])
    from b have "(fst b, snd b) \<in> set ?fd" using most_common_subset by fastforce
    then have cb: "snd b = spec_count ss n ctx (fst b)" by (rule dist_items(1) [OF assms])
    show "ranks_before ss ctx (fst a) (fst b)"
      using r unfolding ranks_before_def Let_def n [symmetric] ca cb by simp
  qed
qed

lemma set_slice_to: "set (slice_to k xs) \<subseteq> set xs"
  by (auto simp: slice_to_def dest: in_set_takeD)

lemma get_next_word_trained:
  assumes "p \<noteq> []"
  shows "get_next_word \<lparr>ngram_counter = Some c\<rparr> p top_n s
           = slice_to top_n (filter (\<lambda>word. startswith word s)
               (map fst (most_common (counts c (length (last_two p) + 1) (last_two p)) (N (unigrams c)))))"
  using assms by (simp add: get_next_word_def getitem_def Let_def)

lemma get_next_word_ranked:
  "sorted_wrt (ranks_before ss (last_two p))
     (get_next_word \<lparr>ngram_counter = Some (fit_counter ss)\<rparr> p top_n s)"
proof (cases "p = []")
  case True
  then show ?thesis by (simp add: get_next_word_Nil)
next
  case False
  let ?ctx = "last_two p"
  let ?n = "length ?ctx + 1"
  have n: "?n = 2 \<or> ?n = 3" using last_two_length [OF False] by auto
  have len: "length ?ctx = ?n - 1" by simp
  have "sorted_wrt (\<lambda>a b. ranks_before ss ?ctx (fst a) (fst b))
          (most_common (counts (fit_counter ss) ?n ?ctx) (N (unigrams (fit_counter ss))))"
    by (rule ranked_items [OF n len])
  then have "sorted_wrt (ranks_before ss ?ctx)
          (map fst (most_common (counts (fit_counter ss) ?n ?ctx) (N (unigrams (fit_counter ss)))))"
    by (simp add: sorted_wrt_map)
  then show ?thesis
    unfolding get_next_word_trained [OF False]
    by (intro sorted_wrt_slice_to sorted_wrt_filter)
qed

lemma get_next_word_counted:
  assumes "w \<in> set (get_next_word \<lparr>ngram_counter = Some (fit_counter ss)\<rparr> p top_n s)"
  shows "spec_count ss (length (last_two p) + 1) (last_two p) w > 0"
proof (cases "p = []")
  case True
  with assms show ?thesis by (simp add: get_next_word_Nil)
next
  case False
  let ?ctx = "last_two p"
  let ?n = "length ?ctx + 1"
  have n: "?n = 2 \<or> ?n = 3" using last_two_length [OF False] by auto
  have len: "length ?ctx = ?n - 1" by simp
  from assms have "w \<in> set (map fst (most_common (counts (fit_counter ss) ?n ?ctx)
      (N (unigrams (fit_counter ss)))))"
    unfolding get_next_word_trained [OF False] using set_slice_to by fastforce
  then obtain k where "(w, k) \<in> set (most_common (counts (fit_counter ss) ?n ?ctx)
      (N (unigrams (fit_counter ss))))"
    by auto
  then have "(w, k) \<in> set (counts (fit_counter ss) ?n ?ctx)"
    using most_common_subset by blast
  from dist_items [OF n len this] show ?thesis by simp
qed

subsection \<open>The cap on the candidates\<close>

lemma length_incr: "length (incr w fd) \<le> Suc (length fd)"
  by (induction fd) auto

lemma length_tally: "length (fold incr ws fd) \<le> length fd + length ws"
proof (induction ws arbitrary: fd)
  case Nil
  then show ?case by simp
next
  case (Cons w ws)
  have "length (fold incr ws (incr w fd)) \<le> length (incr w fd) + length ws"
    by (rule Cons.IH)
  also have "\<dots> \<le> Suc (length fd) + length ws"
    using length_incr [of w fd] by simp
  finally show ?case by simp
qed

lemma N_incr: "N (incr w fd) = N fd + 1"
  unfolding N_def by (induction fd) auto

lemma unigrams_update_ngram:
  "unigrams (update_ngram g c) = (if length g = 1 then incr (hd g) (unigrams c) else unigrams c)"
  by (simp add: update_ngram_def Let_def)

lemma N_unigrams_fold:
  "N (unigrams (fold update_ngram gs c))
     = N (unigrams c) + int (length (filter (\<lambda>g. length g = 1) gs))"
  by (induction gs arbitrary: c) (simp_all add: unigrams_update_ngram N_incr)

lemma filter_order_other:
  assumes "k \<ge> 1" and "\<And>g. P g \<Longrightarrow> length g \<noteq> k"
  shows "filter P (concat (map (\<lambda>s. ngrams s k True True LEFT_SENT_PAD RIGHT_SENT_PAD) ss)) = []"
  using assms ngrams_length [OF assms(1)] by (auto simp: filter_empty_conv)

lemma length_filter_concat:
  "length (filter P (concat (map f ss))) = sum_list (map (\<lambda>s. length (filter P (f s))) ss)"
  by (induction ss) simp_all

lemma length_unigrams: "length (ngrams s 1 True True LEFT_SENT_PAD RIGHT_SENT_PAD) = length s"
  by (simp add: ngrams_spec spec_windows_def spec_padded_def)

lemma unigrams_all_one:
  "filter (\<lambda>g. length g = 1) (ngrams s 1 True True LEFT_SENT_PAD RIGHT_SENT_PAD)
     = ngrams s 1 True True LEFT_SENT_PAD RIGHT_SENT_PAD"
  using ngrams_length [of 1 _ s] by (simp add: filter_id_conv)

lemma N_fit: "N (unigrams (fit_counter ss)) = int (sum_list (map length ss))"
proof -
  have "filter (\<lambda>g. length g = 1) (training_stream ss)
          = filter (\<lambda>g. length g = 1)
              (concat (map (\<lambda>s. ngrams s 1 True True LEFT_SENT_PAD RIGHT_SENT_PAD) ss))"
  proof -
    have "filter (\<lambda>g. length g = 1)
            (concat (map (\<lambda>s. ngrams s 3 True True LEFT_SENT_PAD RIGHT_SENT_PAD) ss)) = []"
      by (rule filter_order_other) simp_all
    moreover have "filter (\<lambda>g. length g = 1)
            (concat (map (\<lambda>s. ngrams s 2 True True LEFT_SENT_PAD RIGHT_SENT_PAD) ss)) = []"
      by (rule filter_order_other) simp_all
    ultimately show ?thesis unfolding training_stream_def by simp
  qed
  then have "length (filter (\<lambda>g. length g = 1) (training_stream ss))
      = length (filter (\<lambda>g. length g = 1)
              (concat (map (\<lambda>s. ngrams s 1 True True LEFT_SENT_PAD RIGHT_SENT_PAD) ss)))"
    by (simp only:)
  also have "\<dots> = sum_list (map (\<lambda>s. length (filter (\<lambda>g. length g = 1)
              (ngrams s 1 True True LEFT_SENT_PAD RIGHT_SENT_PAD))) ss)"
    by (rule length_filter_concat)
  also have "\<dots> = sum_list (map length ss)"
    by (simp only: unigrams_all_one length_unigrams)
  finally have "length (filter (\<lambda>g. length g = 1) (training_stream ss)) = sum_list (map length ss)" .
  moreover have "N (unigrams empty_counter) = 0"
    by (simp add: empty_counter_def N_def)
  ultimately show ?thesis
    unfolding fit_counter_stream N_unigrams_fold by (simp only:)
qed

lemma follows_stream:
  assumes "n = 2 \<or> n = 3"
  shows "length (filter (follows n ctx) (training_stream ss))
           = sum_list (map (\<lambda>s. length (filter (follows n ctx)
               (ngrams s n True True LEFT_SENT_PAD RIGHT_SENT_PAD))) ss)"
proof -
  have f: "follows n ctx g \<Longrightarrow> length g = n" for g by (simp add: follows_def)
  from assms show ?thesis
  proof
    assume n: "n = 2"
    show ?thesis
      unfolding training_stream_def n using f [unfolded n]
      by (simp add: filter_order_other length_filter_concat)
  next
    assume n: "n = 3"
    show ?thesis
      unfolding training_stream_def n using f [unfolded n]
      by (simp add: filter_order_other length_filter_concat)
  qed
qed

lemma heads_windows:
  assumes "n \<ge> 1"
  shows "map hd (ngrams s n True True LEFT_SENT_PAD RIGHT_SENT_PAD)
           = replicate (n - 1) LEFT_SENT_PAD @ s"
proof -
  let ?p = "spec_padded n s"
  let ?k = "length ?p + 1 - n"
  have k: "?k = (n - 1) + length s" using assms by (simp add: spec_padded_def)
  have "hd (take n (drop i ?p)) = ?p ! i" if "i < ?k" for i
    using that assms by (simp add: hd_drop_conv_nth)
  then have "map hd (spec_windows n ?p) = map (\<lambda>i. ?p ! i) [0 ..< ?k]"
    unfolding spec_windows_def by simp
  also have "\<dots> = take ?k ?p"
  proof -
    have "?k \<le> length ?p" using assms by simp
    then have "map (\<lambda>i. take ?k ?p ! i) [0 ..< length (take ?k ?p)] = map (\<lambda>i. ?p ! i) [0 ..< ?k]"
      by (simp add: min_def)
    then show ?thesis using map_nth [of "take ?k ?p"] by simp
  qed
  also have "\<dots> = replicate (n - 1) LEFT_SENT_PAD @ s"
    unfolding k by (simp add: spec_padded_def)
  finally show ?thesis by (simp add: ngrams_spec [OF assms])
qed

lemma length_filter_mono:
  "(\<And>x. P x \<Longrightarrow> Q x) \<Longrightarrow> length (filter P xs) \<le> length (filter Q xs)"
  by (induction xs) auto

lemma follows_head:
  assumes "n \<ge> 2" and "length ctx = n - 1" and "follows n ctx g"
  shows "hd g = hd ctx"
proof -
  from assms have "g \<noteq> []" and "butlast g = ctx" and "ctx \<noteq> []"
    by (auto simp: follows_def)
  then show ?thesis by (metis append_butlast_last_id hd_append2)
qed

lemma single_sentence_trigrams:
  "ngrams [a] 3 True True LEFT_SENT_PAD RIGHT_SENT_PAD
     = [[LEFT_SENT_PAD, LEFT_SENT_PAD, a], [LEFT_SENT_PAD, a, RIGHT_SENT_PAD],
        [a, RIGHT_SENT_PAD, RIGHT_SENT_PAD]]"
  by (simp add: ngrams_def pad_sequence_def numeral_2_eq_2 Let_def)

lemma follows_per_sentence:
  assumes "n = 2 \<or> n = 3" and "length ctx = n - 1"
    and "hd ctx \<noteq> LEFT_SENT_PAD \<or> (s \<noteq> [] \<and> LEFT_SENT_PAD \<notin> set s)"
  shows "length (filter (follows n ctx) (ngrams s n True True LEFT_SENT_PAD RIGHT_SENT_PAD))
           \<le> length s"
proof -
  let ?ws = "ngrams s n True True LEFT_SENT_PAD RIGHT_SENT_PAD"
  from assms(1) have n2: "n \<ge> 2" and n1: "n \<ge> 1" by auto
  have "length (filter (follows n ctx) ?ws) \<le> length (filter (\<lambda>g. hd g = hd ctx) ?ws)"
    by (rule length_filter_mono) (rule follows_head [OF n2 assms(2)])
  also have "\<dots> = length (filter (\<lambda>x. x = hd ctx) (map hd ?ws))"
    by (simp add: filter_map comp_def)
  also have "\<dots> = length (filter (\<lambda>x. x = hd ctx) (replicate (n - 1) LEFT_SENT_PAD))
                  + length (filter (\<lambda>x. x = hd ctx) s)"
    unfolding heads_windows [OF n1] by simp
  finally have bound: "length (filter (follows n ctx) ?ws)
      \<le> length (filter (\<lambda>x. x = hd ctx) (replicate (n - 1) LEFT_SENT_PAD))
        + length (filter (\<lambda>x. x = hd ctx) s)" .
  show ?thesis
  proof (cases "hd ctx = LEFT_SENT_PAD")
    case False
    then have "filter (\<lambda>x. x = hd ctx) (replicate (n - 1) LEFT_SENT_PAD) = []"
      by (auto simp: filter_empty_conv)
    with bound have "length (filter (follows n ctx) ?ws) \<le> length (filter (\<lambda>x. x = hd ctx) s)"
      by simp
    also have "\<dots> \<le> length s" by (rule length_filter_le)
    finally show ?thesis .
  next
    case True
    with assms(3) have ne: "s \<noteq> []" and clean: "LEFT_SENT_PAD \<notin> set s" by auto
    from clean True have "filter (\<lambda>x. x = hd ctx) s = []"
      by (auto simp: filter_empty_conv)
    with bound have b: "length (filter (follows n ctx) ?ws) \<le> n - 1"
      using length_filter_le [of "\<lambda>x. x = hd ctx" "replicate (n - 1) LEFT_SENT_PAD"] by simp
    show ?thesis
    proof (cases "n - 1 \<le> length s")
      case True
      with b show ?thesis by simp
    next
      case False
      have "length s \<ge> 1" using ne by (cases s) simp_all
      with False assms(1) have "n = 3 \<and> length s = 1" by arith
      then have n: "n = 3" and "length s = 1" by simp_all
      then obtain a where s: "s = [a]" by (cases s) auto
      with clean have a: "a \<noteq> LEFT_SENT_PAD" by auto
      have f2: "\<not> follows 3 ctx [a, RIGHT_SENT_PAD, RIGHT_SENT_PAD]"
      proof
        assume "follows 3 ctx [a, RIGHT_SENT_PAD, RIGHT_SENT_PAD]"
        then have "ctx = [a, RIGHT_SENT_PAD]" by (simp add: follows_def)
        with True a show False by simp
      qed
      have f01: "\<not> follows 3 ctx [LEFT_SENT_PAD, a, RIGHT_SENT_PAD]"
        if "follows 3 ctx [LEFT_SENT_PAD, LEFT_SENT_PAD, a]"
      proof
        assume "follows 3 ctx [LEFT_SENT_PAD, a, RIGHT_SENT_PAD]"
        then have "ctx = [LEFT_SENT_PAD, a]" by (simp add: follows_def)
        moreover from that have "ctx = [LEFT_SENT_PAD, LEFT_SENT_PAD]" by (simp add: follows_def)
        ultimately show False using a by simp
      qed
      show ?thesis
        unfolding n s single_sentence_trigrams
        by (cases "follows 3 ctx [LEFT_SENT_PAD, LEFT_SENT_PAD, a]") (simp_all add: f2 f01)
    qed
  qed
qed

lemma follows_bound:
  assumes "n = 2 \<or> n = 3" and "length ctx = n - 1"
    and "hd ctx \<noteq> LEFT_SENT_PAD \<or> (\<forall>s \<in> set ss. s \<noteq> [] \<and> LEFT_SENT_PAD \<notin> set s)"
  shows "length (filter (follows n ctx) (training_stream ss)) \<le> sum_list (map length ss)"
  unfolding follows_stream [OF assms(1)]
proof (rule sum_list_mono)
  fix s
  assume "s \<in> set ss"
  with assms(3) have "hd ctx \<noteq> LEFT_SENT_PAD \<or> (s \<noteq> [] \<and> LEFT_SENT_PAD \<notin> set s)" by auto
  then show "length (filter (follows n ctx) (ngrams s n True True LEFT_SENT_PAD RIGHT_SENT_PAD))
           \<le> length s"
    by (rule follows_per_sentence [OF assms(1,2)])
qed

lemma dist_size:
  assumes "n = 2 \<or> n = 3" and "length ctx = n - 1"
    and "hd ctx \<noteq> LEFT_SENT_PAD \<or> (\<forall>s \<in> set ss. s \<noteq> [] \<and> LEFT_SENT_PAD \<notin> set s)"
  shows "int (length (counts (fit_counter ss) n ctx)) \<le> N (unigrams (fit_counter ss))"
proof -
  from assms(1) have n2: "n \<ge> 2" by auto
  have "length (counts (fit_counter ss) n ctx)
          \<le> length (filter (follows n ctx) (training_stream ss))"
    unfolding counts_fit [OF n2]
    using length_tally [of "map last (filter (follows n ctx) (training_stream ss))" "[]"] by simp
  also have "\<dots> \<le> sum_list (map length ss)"
    by (rule follows_bound [OF assms])
  finally show ?thesis unfolding N_fit by simp
qed

lemma most_common_all:
  assumes "int (length fd) \<le> m"
  shows "most_common fd m = sort_key (\<lambda>item. - snd item) fd"
  using assms by (simp add: most_common_def)

lemma slice_to_all:
  assumes "int (length xs) \<le> k"
  shows "slice_to k xs = xs"
  using assms by (simp add: slice_to_def)

lemma cap_keeps:
  assumes "p \<noteq> []"
    and "hd (last_two p) \<noteq> LEFT_SENT_PAD \<or> (\<forall>s \<in> set ss. s \<noteq> [] \<and> LEFT_SENT_PAD \<notin> set s)"
    and "int (length (getitem (fit_counter ss) (last_two p))) \<le> top_n"
  shows "int (length (getitem (fit_counter ss) (last_two p))) \<le> N (unigrams (fit_counter ss))"
    and "set (get_next_word \<lparr>ngram_counter = Some (fit_counter ss)\<rparr> p top_n s)
           = set (filter (\<lambda>w. startswith w s) (map fst (getitem (fit_counter ss) (last_two p))))"
proof -
  let ?ctx = "last_two p"
  let ?n = "length ?ctx + 1"
  let ?fd = "counts (fit_counter ss) ?n ?ctx"
  have n: "?n = 2 \<or> ?n = 3" using last_two_length [OF assms(1)] by auto
  have len: "length ?ctx = ?n - 1" by simp
  have g: "getitem (fit_counter ss) ?ctx = ?fd" by (simp add: getitem_def)
  show cap: "int (length (getitem (fit_counter ss) ?ctx)) \<le> N (unigrams (fit_counter ss))"
    unfolding g by (rule dist_size [OF n len assms(2)])
  let ?ranked = "filter (\<lambda>word. startswith word s)
                   (map fst (sort_key (\<lambda>item. - snd item) ?fd))"
  have "length ?ranked \<le> length ?fd"
    using length_filter_le [of "\<lambda>word. startswith word s" "map fst (sort_key (\<lambda>item. - snd item) ?fd)"]
    by simp
  with assms(3) have "int (length ?ranked) \<le> top_n" unfolding g by simp
  then have "get_next_word \<lparr>ngram_counter = Some (fit_counter ss)\<rparr> p top_n s = ?ranked"
    unfolding get_next_word_trained [OF assms(1)] most_common_all [OF cap [unfolded g]]
    by (rule slice_to_all)
  then show "set (get_next_word \<lparr>ngram_counter = Some (fit_counter ss)\<rparr> p top_n s)
           = set (filter (\<lambda>w. startswith w s) (map fst (getitem (fit_counter ss) ?ctx)))"
    unfolding g by simp
qed

subsection \<open>The ranking of the specification\<close>

lemma followers_stream:
  assumes "n = 2 \<or> n = 3"
  shows "map last (filter (follows n ctx) (training_stream ss)) = spec_followers ss n ctx"
proof -
  let ?part = "\<lambda>k. concat (map (\<lambda>s. ngrams s k True True LEFT_SENT_PAD RIGHT_SENT_PAD) ss)"
  have f: "follows n ctx g \<Longrightarrow> length g = n" for g by (simp add: follows_def)
  have own: "filter (follows n ctx) (?part n) = filter (\<lambda>g. butlast g = ctx) (?part n)"
  proof (rule filter_cong [OF refl])
    fix g assume "g \<in> set (?part n)"
    then have "length g = n" using ngrams_length [of n g] assms by auto
    then show "follows n ctx g = (butlast g = ctx)" by (simp add: follows_def)
  qed
  have spec: "?part n = concat (map (\<lambda>s. spec_windows n (spec_padded n s)) ss)"
    using assms by (auto simp: ngrams_spec)
  have one: "filter (follows n ctx) (?part 1) = []"
    by (rule filter_order_other) (use f assms in auto)
  from assms have "filter (follows n ctx) (training_stream ss) = filter (follows n ctx) (?part n)"
  proof
    assume n: "n = 2"
    have "filter (follows n ctx) (?part 3) = []"
      by (rule filter_order_other) (use f n in auto)
    then show ?thesis unfolding training_stream_def using one n by simp
  next
    assume n: "n = 3"
    have "filter (follows n ctx) (?part 2) = []"
      by (rule filter_order_other) (use f n in auto)
    then show ?thesis unfolding training_stream_def using one n by simp
  qed
  also have "\<dots> = filter (\<lambda>g. butlast g = ctx) (?part n)" by (rule own)
  also have "\<dots> = filter (\<lambda>g. butlast g = ctx)
      (concat (map (\<lambda>s. spec_windows n (spec_padded n s)) ss))"
    by (simp only: spec)
  finally show ?thesis unfolding spec_followers_def by (simp only:)
qed

lemma keys_first_seen: "map fst (fold incr ws []) = first_seen_order ws"
proof (induction ws rule: rev_induct)
  case Nil
  then show ?case by (simp add: first_seen_order_def)
next
  case (snoc w ws)
  have ks: "set (map fst (fold incr ws [])) = set ws" by (rule keys_tally)
  show ?case
    unfolding fold_incr_snoc keys_incr ks using snoc.IH
    by (simp add: first_seen_order_def)
qed

lemma map_insort_key:
  "map f (insort_key (\<lambda>x. g (f x)) a xs) = insort_key g (f a) (map f xs)"
  by (induction xs) simp_all

lemma map_sort_key: "map f (sort_key (\<lambda>x. g (f x)) xs) = sort_key g (map f xs)"
  by (induction xs) (simp_all add: map_insort_key)

lemma insort_key_agree: "h a = k a \<Longrightarrow> \<forall>x \<in> set xs. h x = k x \<Longrightarrow> insort_key h a xs = insort_key k a xs"
  by (induction xs) simp_all

lemma sort_key_agree: "\<forall>x \<in> set xs. h x = k x \<Longrightarrow> sort_key h xs = sort_key k xs"
proof (induction xs)
  case Nil
  then show ?case by simp
next
  case (Cons a xs)
  then have "sort_key h xs = sort_key k xs" by simp
  moreover have "insort_key h a (sort_key k xs) = insort_key k a (sort_key k xs)"
    by (rule insort_key_agree) (use Cons.prems in simp_all)
  ultimately show ?case by simp
qed

lemma ranked_words:
  assumes "n = 2 \<or> n = 3" and "length ctx = n - 1"
  shows "map fst (most_common (counts (fit_counter ss) n ctx) m) = take (nat m) (spec_ranked ss n ctx)"
proof -
  let ?fd = "counts (fit_counter ss) n ctx"
  from assms(1) have n2: "n \<ge> 2" by auto
  have keys: "map fst ?fd = first_seen_order (spec_followers ss n ctx)"
    unfolding counts_fit [OF n2] keys_first_seen followers_stream [OF assms(1)] ..
  have "\<forall>item \<in> set ?fd. - snd item = - spec_count ss n ctx (fst item)"
  proof
    fix item assume "item \<in> set ?fd"
    then have "(fst item, snd item) \<in> set ?fd" by simp
    from dist_items(1) [OF assms this] show "- snd item = - spec_count ss n ctx (fst item)" by simp
  qed
  then have "sort_key (\<lambda>item. - snd item) ?fd
               = sort_key (\<lambda>item. - spec_count ss n ctx (fst item)) ?fd"
    by (rule sort_key_agree)
  then have "map fst (sort_key (\<lambda>item. - snd item) ?fd) = spec_ranked ss n ctx"
    unfolding spec_ranked_def keys [symmetric]
    by (simp add: map_sort_key [of fst "\<lambda>w. - spec_count ss n ctx w"])
  then have "take (nat m) (map fst (sort_key (\<lambda>item. - snd item) ?fd))
      = take (nat m) (spec_ranked ss n ctx)"
    by (simp only:)
  then show ?thesis unfolding most_common_def take_map .
qed

lemma total_tokens: "N (unigrams (fit_counter ss)) = int (length (concat ss))"
  unfolding N_fit by (simp add: length_concat)

lemma get_next_word_spec:
  assumes "p \<noteq> []"
  shows "get_next_word \<lparr>ngram_counter = Some (fit_counter ss)\<rparr> p top_n s
           = slice_to top_n (filter (\<lambda>word. startswith word s)
               (take (length (concat ss)) (spec_ranked ss (min (length p) 2 + 1) (last_two p))))"
proof -
  let ?ctx = "last_two p"
  let ?n = "length ?ctx + 1"
  have n: "?n = 2 \<or> ?n = 3" using last_two_length [OF assms] by auto
  have len: "length ?ctx = ?n - 1" by simp
  show ?thesis
    unfolding get_next_word_trained [OF assms] ranked_words [OF n len] total_tokens
    by (simp add: last_two_min)
qed

lemma length_filter_take: "length (filter P (take k xs)) \<le> length (filter P xs)"
proof -
  have "length (filter P xs) = length (filter P (take k xs)) + length (filter P (drop k xs))"
    by (metis append_take_drop_id filter_append length_append)
  then show ?thesis by simp
qed

lemma length_slice_to: "length (slice_to k xs) \<le> length xs"
  unfolding slice_to_def by (cases "0 \<le> k") simp_all

lemma get_next_word_starts:
  "\<forall>word \<in> set (get_next_word self p top_n s). startswith word s"
proof -
  have "\<forall>word \<in> set (matching_candidates self p s). startswith word s"
    by (auto simp: matching_candidates_def split: option.splits)
  then show ?thesis
    unfolding get_next_word_slice using set_slice_to [of top_n "matching_candidates self p s"]
    by blast
qed

lemma get_next_word_at_most:
  assumes "0 \<le> top_n"
  shows "int (length (get_next_word self p top_n s)) \<le> top_n"
  unfolding get_next_word_slice using assms by (simp add: slice_to_def)

lemma get_next_word_uncut:
  assumes "p \<noteq> []"
    and "length (spec_ranked ss (min (length p) 2 + 1) (last_two p)) \<le> length (concat ss)"
  shows "get_next_word \<lparr>ngram_counter = Some (fit_counter ss)\<rparr> p top_n s
           = slice_to top_n (filter (\<lambda>word. startswith word s)
               (spec_ranked ss (min (length p) 2 + 1) (last_two p)))"
  unfolding get_next_word_spec [OF assms(1)] using assms(2) by simp

lemma get_next_word_no_more:
  "length (get_next_word \<lparr>ngram_counter = Some (fit_counter ss)\<rparr> p top_n s)
     \<le> length (filter (\<lambda>word. startswith word s)
          (spec_ranked ss (min (length p) 2 + 1) (last_two p)))"
proof (cases "p = []")
  case True
  then show ?thesis by (simp add: get_next_word_Nil)
next
  case False
  let ?r = "spec_ranked ss (min (length p) 2 + 1) (last_two p)"
  have "length (get_next_word \<lparr>ngram_counter = Some (fit_counter ss)\<rparr> p top_n s)
          \<le> length (filter (\<lambda>word. startswith word s) (take (length (concat ss)) ?r))"
    unfolding get_next_word_spec [OF False] by (rule length_slice_to)
  also have "\<dots> \<le> length (filter (\<lambda>word. startswith word s) ?r)"
    by (rule length_filter_take)
  finally show ?thesis .
qed

section \<open>Failures of training\<close>




lemma training_sentences_issues:
  assumes "json_load w name = Inr j" and "subscript j ''Issues'' = Inl e"
  shows "training_sentences w env name ids = Inl e"
  using assms by (simp add: training_sentences_def get_operator_messages_def)


















section \<open>The store and the pure queries\<close>

lemma get_next_word_h_spec:
  assumes "r < length h"
  shows "\<exists>w extra. get_next_word_h self h r top_n s = (w, h @ extra) \<and>
           w < length (h @ extra) \<and>
           (h @ extra) ! w = get_next_word self (h ! r) top_n s"
proof (cases "ngram_counter self")
  case None
  then show ?thesis
    by (simp add: get_next_word_h_def get_next_word_def alloc_def)
next
  case (Some c)
  show ?thesis
  proof (cases "length (h ! r) < 1")
    case True
    then show ?thesis using Some
      by (simp add: get_next_word_h_def get_next_word_def alloc_def)
  next
    case False
    let ?res = "get_next_word self (h ! r) top_n s"
    have "get_next_word_h self h r top_n s = (Suc (length h), h @ [h ! r, ?res])"
      using Some False
      by (simp add: get_next_word_h_def get_next_word_def alloc_def Let_def nth_append)
    moreover have "(h @ [h ! r, ?res]) ! Suc (length h) = ?res"
      by (simp add: nth_append)
    ultimately show ?thesis by (intro exI [of _ "Suc (length h)"] exI [of _ "[h ! r, ?res]"]) simp
  qed
qed

lemma grow_h_spec:
  assumes "base \<le> r" and "r < length h" 
  shows "\<exists>h'. grow_h self i r h = (r, h') \<and> length h \<le> length h' \<and>
           take base h' = take base h \<and> h' ! r = grow self i (h ! r)"
  using assms(2)
proof (induction i arbitrary: h)
  case 0
  then show ?case by simp
next
  case (Suc i)
  obtain w0 extra where pair: "get_next_word_h self h r 1 [] = (w0, h @ extra)"
    and w: "(h @ extra) ! w0 = get_next_word self (h ! r) 1 []"
    using get_next_word_h_spec [OF Suc.prems, of self 1 "[]"] by blast
  let ?h1 = "h @ extra"
  let ?word = "get_next_word self (h ! r) 1 []"
  have hr: "?h1 ! r = h ! r" using Suc.prems by (simp add: nth_append)
  have bl: "base \<le> length h" using assms(1) Suc.prems by simp
  show ?case
  proof (cases "length ?word = 0 \<or> hd ?word = RIGHT_SENT_PAD")
    case True
    then have g1: "grow_h self (Suc i) r h = (r, ?h1)"
      using pair w by (simp add: Let_def)
    have g2: "grow self (Suc i) (h ! r) = h ! r"
      using True by (simp add: Let_def)
    show ?thesis unfolding g1 g2 using hr bl by simp
  next
    case False
    let ?h2 = "?h1[r := ?h1 ! r @ [hd ?word]]"
    have step: "grow_h self (Suc i) r h = grow_h self i r ?h2"
      using pair w False by (simp add: Let_def)
    have r2: "r < length ?h2" using Suc.prems by simp
    from Suc.IH [OF r2] obtain h' where h': "grow_h self i r ?h2 = (r, h')"
      and len: "length ?h2 \<le> length h'" and frame: "take base h' = take base ?h2"
      and val: "h' ! r = grow self i (?h2 ! r)"
      by blast
    have "?h2 ! r = h ! r @ [hd ?word]" using Suc.prems hr by simp
    then have v: "h' ! r = grow self (Suc i) (h ! r)"
      using val False by (simp add: Let_def)
    have f: "take base ?h2 = take base h"
      using assms(1) bl by (simp add: take_update_cancel)
    have l: "length h \<le> length h'" using len by simp
    show ?thesis unfolding step h' using v f l frame by simp
  qed
qed

lemma get_next_word_h_frame:
  assumes "r < length h"
  shows "take (length h) (snd (get_next_word_h self h r top_n s)) = h"
    and "snd (get_next_word_h self h r top_n s) ! fst (get_next_word_h self h r top_n s)
           = get_next_word self (h ! r) top_n s"
proof -
  obtain w extra where p: "get_next_word_h self h r top_n s = (w, h @ extra)"
    and v: "(h @ extra) ! w = get_next_word self (h ! r) top_n s"
    using get_next_word_h_spec [OF assms, of self top_n s] by blast
  show "take (length h) (snd (get_next_word_h self h r top_n s)) = h"
    unfolding p by simp
  show "snd (get_next_word_h self h r top_n s) ! fst (get_next_word_h self h r top_n s)
           = get_next_word self (h ! r) top_n s"
    unfolding p using v by simp
qed

lemma get_sentence_h_frame:
  assumes "r < length h"
  shows "take (length h) (snd (get_sentence_h self h r m)) = h"
    and "snd (get_sentence_h self h r m) ! fst (get_sentence_h self h r m)
           = get_sentence self (h ! r) m"
proof -
  have "take (length h) (snd (get_sentence_h self h r m)) = h \<and>
        snd (get_sentence_h self h r m) ! fst (get_sentence_h self h r m)
           = get_sentence self (h ! r) m"
  proof (cases "ngram_counter self")
    case None
    then show ?thesis by (simp add: get_sentence_h_def get_sentence_def alloc_def)
  next
    case (Some c)
    show ?thesis
    proof (cases "int (length (h ! r)) \<ge> m \<or> length (h ! r) = 0")
      case True
      then show ?thesis using Some by (auto simp: get_sentence_h_def get_sentence_def)
    next
      case False
      let ?h1 = "h @ [h ! r]"
      let ?i = "nat (m - int (length (h ! r)))"
      have eq: "get_sentence_h self h r m = grow_h self ?i (length h) ?h1"
        using Some False by (simp add: get_sentence_h_def alloc_def)
      have pure: "get_sentence self (h ! r) m = grow self ?i (h ! r)"
        by (rule get_sentence_grow [OF Some False])
      obtain h' where g: "grow_h self ?i (length h) ?h1 = (length h, h')"
        and frame: "take (length h) h' = take (length h) ?h1"
        and val: "h' ! length h = grow self ?i (?h1 ! length h)"
        using grow_h_spec [of "length h" "length h" ?h1 self ?i] by auto
      show ?thesis unfolding eq g pure using frame val by simp
    qed
  qed
  then show "take (length h) (snd (get_sentence_h self h r m)) = h"
    and "snd (get_sentence_h self h r m) ! fst (get_sentence_h self h r m)
           = get_sentence self (h ! r) m"
    by simp_all
qed

lemma take_nth_same: "take n xs = ys \<Longrightarrow> r < n \<Longrightarrow> r < length ys \<Longrightarrow> xs ! r = ys ! r"
  by (metis nth_take)

section \<open>The claims\<close>

text \<open>
  Claim C8. On an untrained model, where \<^verbatim>\<open>ngram_counter\<close> is \<open>None\<close>, each of
  \<^verbatim>\<open>generate_completions\<close>, \<^verbatim>\<open>get_next_word\<close> and \<^verbatim>\<open>get_sentence\<close> returns the empty
  list, whatever its other arguments: a value, not an error.
\<close>

theorem untrained_queries_empty:
  assumes "ngram_counter self = None"
  shows "generate_completions env self text0 max_sentence_length max_num_of_sentences = [] \<and>
         get_next_word self prefix_string top_n start_string = [] \<and>
         get_sentence self prefix_string max_sentence_length = []"
  using assms by (simp add: generate_completions_def get_next_word_def get_sentence_def)

text \<open>The untrained model of \<^verbatim>\<open>__init__\<close>, queried as the test of the repository does.\<close>

theorem untrained_queries_empty_witness:
  "ngram_counter init = None \<and>
   generate_completions plain_nlp init ''how can i'' 6 2 = [] \<and>
   get_next_word init [''how'', ''can'', ''i''] 1 [] = [] \<and>
   get_sentence init [''how'', ''can'', ''i''] 6 = []"
proof -
  have h: "ngram_counter init = None" by (simp add: init_def)
  show ?thesis
    using h untrained_queries_empty [OF h, of plain_nlp "''how can i''" 6 2 "[''how'', ''can'', ''i'']" 1 "[]"]
    by simp
qed

text \<open>
  Claim C2, as amended. On a trained model, \<^verbatim>\<open>get_sentence\<close> returns an empty prefix and a
  prefix at or above \<open>max_sentence_length\<close> unchanged, however long it is; any other prefix
  it extends to a sequence of at most \<open>max_sentence_length\<close> tokens that starts with the
  prefix. So the result is never longer than the larger of the cap and the prefix.
\<close>

theorem get_sentence_length_bound:
  assumes "ngram_counter self = Some c"
  shows "(length prefix_string = 0 \<or> max_sentence_length \<le> int (length prefix_string) \<longrightarrow>
            get_sentence self prefix_string max_sentence_length = prefix_string) \<and>
         (length prefix_string \<noteq> 0 \<and> int (length prefix_string) < max_sentence_length \<longrightarrow>
            int (length (get_sentence self prefix_string max_sentence_length)) \<le> max_sentence_length \<and>
            take (length prefix_string) (get_sentence self prefix_string max_sentence_length)
              = prefix_string) \<and>
         int (length (get_sentence self prefix_string max_sentence_length))
           \<le> max max_sentence_length (int (length prefix_string))"
proof (cases "int (length prefix_string) \<ge> max_sentence_length \<or> length prefix_string = 0")
  case True
  have "get_sentence self prefix_string max_sentence_length = prefix_string"
    by (rule get_sentence_unchanged [OF assms True])
  then show ?thesis using True by auto
next
  case False
  let ?i = "nat (max_sentence_length - int (length prefix_string))"
  have eq: "get_sentence self prefix_string max_sentence_length = grow self ?i prefix_string"
    by (rule get_sentence_grow [OF assms False])
  have "length (grow self ?i prefix_string) \<le> length prefix_string + ?i"
    by (rule grow_length)
  also have "\<dots> = nat max_sentence_length"
    using False by arith
  finally have b: "int (length (grow self ?i prefix_string)) \<le> max_sentence_length"
    using False by arith
  have k: "take (length prefix_string) (grow self ?i prefix_string) = prefix_string"
    by (rule grow_keeps_prefix)
  show ?thesis unfolding eq using False b k by simp
qed

text \<open>
  A prefix of three words with a cap of two, returned as it is, and a prefix of two words
  grown to the cap of four.
\<close>

theorem get_sentence_length_bound_witness:
  "get_sentence sample_model [''what'', ''is'', ''your''] 2 = [''what'', ''is'', ''your''] \<and>
   get_sentence sample_model [''how'', ''can''] 4 = [''how'', ''can'', ''i'', ''assist''] \<and>
   int (length (get_sentence sample_model [''how'', ''can''] 4)) \<le> 4 \<and>
   take (length [''how'', ''can'']) (get_sentence sample_model [''how'', ''can''] 4) = [''how'', ''can'']"
proof -
  have m: "ngram_counter sample_model = Some (fit_counter sample_corpus)"
    by (simp add: sample_model_def)
  note t1 = get_sentence_length_bound [OF m, of "[''what'', ''is'', ''your'']" 2]
  note t2 = get_sentence_length_bound [OF m, of "[''how'', ''can'']" 4]
  have v: "get_sentence sample_model [''how'', ''can''] 4 = [''how'', ''can'', ''i'', ''assist'']"
    by code_simp
  from t1 have r1: "get_sentence sample_model [''what'', ''is'', ''your''] 2 = [''what'', ''is'', ''your'']"
    by simp
  from t2 have r2: "int (length (get_sentence sample_model [''how'', ''can''] 4)) \<le> 4"
    by simp
  from t2 have r3: "take (length [''how'', ''can'']) (get_sentence sample_model [''how'', ''can''] 4)
      = [''how'', ''can'']"
    by simp
  show ?thesis by (intro conjI r1 v r2 r3)
qed

text \<open>
  Claim C2 as stated fails: a prefix of three words with a cap of two is returned unchanged,
  three words long (the test of the repository expects just that).
\<close>

theorem get_sentence_length_counterexample:
  "\<not> int (length (get_sentence sample_model [''what'', ''is'', ''your''] 2)) \<le> 2"
  by code_simp

text \<open>
  Claim C6. For a prefix without the right pad \<open></s>\<close> (in particular for a prefix
  without sentinels), the sequence \<^verbatim>\<open>get_sentence\<close> returns never contains the right pad;
  and when the returned sequence is shorter than the cap, the next-word query at that very
  sequence finds no candidate or has the right pad as its top candidate, which was not
  appended.
\<close>

theorem get_sentence_stop_cause:
  assumes "RIGHT_SENT_PAD \<notin> set prefix_string"
  shows "RIGHT_SENT_PAD \<notin> set (get_sentence self prefix_string max_sentence_length) \<and>
         (int (length (get_sentence self prefix_string max_sentence_length)) < max_sentence_length \<longrightarrow>
            get_next_word self (get_sentence self prefix_string max_sentence_length) 1 [] = [] \<or>
            hd (get_next_word self (get_sentence self prefix_string max_sentence_length) 1 [])
              = RIGHT_SENT_PAD)"
proof (cases "ngram_counter self")
  case None
  then show ?thesis by (simp add: get_sentence_None get_next_word_None)
next
  case (Some c)
  show ?thesis
  proof (cases "int (length prefix_string) \<ge> max_sentence_length \<or> length prefix_string = 0")
    case True
    have eq: "get_sentence self prefix_string max_sentence_length = prefix_string"
      by (rule get_sentence_unchanged [OF Some True])
    show ?thesis
    proof (cases "prefix_string = []")
      case True
      then show ?thesis unfolding eq by (simp add: get_next_word_Nil)
    next
      case False
      with True have "\<not> int (length prefix_string) < max_sentence_length" by simp
      then show ?thesis unfolding eq using assms by simp
    qed
  next
    case False
    let ?i = "nat (max_sentence_length - int (length prefix_string))"
    have eq: "get_sentence self prefix_string max_sentence_length = grow self ?i prefix_string"
      by (rule get_sentence_grow [OF Some False])
    have "int (length (grow self ?i prefix_string)) < max_sentence_length \<Longrightarrow>
          length (grow self ?i prefix_string) < length prefix_string + ?i"
      using False by arith
    then show ?thesis
      unfolding eq using grow_stops [of self ?i prefix_string] grow_no_pad [OF assms, of self ?i]
      by blast
  qed
qed

text \<open>A run that stops at the right pad, four words long under a cap of eight.\<close>

theorem get_sentence_stop_cause_witness:
  "RIGHT_SENT_PAD \<notin> set [''what'', ''is''] \<and>
   get_sentence sample_model [''what'', ''is''] 8 = [''what'', ''is'', ''your'', ''name''] \<and>
   RIGHT_SENT_PAD \<notin> set (get_sentence sample_model [''what'', ''is''] 8) \<and>
   int (length (get_sentence sample_model [''what'', ''is''] 8)) < 8 \<and>
   (get_next_word sample_model (get_sentence sample_model [''what'', ''is''] 8) 1 [] = [] \<or>
    hd (get_next_word sample_model (get_sentence sample_model [''what'', ''is''] 8) 1 [])
      = RIGHT_SENT_PAD)"
proof -
  have h: "RIGHT_SENT_PAD \<notin> set [''what'', ''is'']" by code_simp
  have r: "get_sentence sample_model [''what'', ''is''] 8 = [''what'', ''is'', ''your'', ''name'']"
    by code_simp
  have l: "int (length (get_sentence sample_model [''what'', ''is''] 8)) < 8"
    unfolding r by simp
  show ?thesis
    using h r l get_sentence_stop_cause [OF h, of sample_model 8] by blast
qed

text \<open>
  Claim C7. With \<open>top_n\<close> a number of words (\<open>top_n \<ge> 0\<close>), \<^verbatim>\<open>get_next_word\<close> returns
  at most \<open>top_n\<close> words; every returned word starts with \<open>start_string\<close>, for any
  \<open>top_n\<close>; and on a trained model no more words are returned than the ranking of the
  context holds words starting with \<open>start_string\<close>, so fewer than \<open>top_n\<close> when fewer
  such words exist. Where the total unigram count is at least the size of the ranking, the
  result is exactly the first \<open>top_n\<close> of those words.
\<close>

theorem get_next_word_top_n:
  "(\<forall>word \<in> set (get_next_word self prefix_string top_n start_string).
      startswith word start_string) \<and>
   (0 \<le> top_n \<longrightarrow>
      int (length (get_next_word self prefix_string top_n start_string)) \<le> top_n) \<and>
   length (get_next_word \<lparr>ngram_counter = Some (fit_counter sentences)\<rparr>
             prefix_string top_n start_string)
     \<le> length (filter (\<lambda>word. startswith word start_string)
          (spec_ranked sentences (min (length prefix_string) 2 + 1) (last_two prefix_string))) \<and>
   (0 \<le> top_n \<and> prefix_string \<noteq> [] \<and>
    length (spec_ranked sentences (min (length prefix_string) 2 + 1) (last_two prefix_string))
      \<le> length (concat sentences) \<longrightarrow>
      get_next_word \<lparr>ngram_counter = Some (fit_counter sentences)\<rparr>
          prefix_string top_n start_string
        = take (nat top_n) (filter (\<lambda>word. startswith word start_string)
            (spec_ranked sentences (min (length prefix_string) 2 + 1) (last_two prefix_string))))"
proof (intro conjI impI)
  show "\<forall>word \<in> set (get_next_word self prefix_string top_n start_string).
      startswith word start_string"
    by (rule get_next_word_starts)
next
  assume "0 \<le> top_n"
  then show "int (length (get_next_word self prefix_string top_n start_string)) \<le> top_n"
    by (rule get_next_word_at_most)
next
  show "length (get_next_word \<lparr>ngram_counter = Some (fit_counter sentences)\<rparr>
             prefix_string top_n start_string)
     \<le> length (filter (\<lambda>word. startswith word start_string)
          (spec_ranked sentences (min (length prefix_string) 2 + 1) (last_two prefix_string)))"
    by (rule get_next_word_no_more)
next
  assume a: "0 \<le> top_n \<and> prefix_string \<noteq> [] \<and>
    length (spec_ranked sentences (min (length prefix_string) 2 + 1) (last_two prefix_string))
      \<le> length (concat sentences)"
  then have p: "prefix_string \<noteq> []" and c: "length (spec_ranked sentences
      (min (length prefix_string) 2 + 1) (last_two prefix_string)) \<le> length (concat sentences)"
    and t: "0 \<le> top_n"
    by simp_all
  show "get_next_word \<lparr>ngram_counter = Some (fit_counter sentences)\<rparr>
          prefix_string top_n start_string
        = take (nat top_n) (filter (\<lambda>word. startswith word start_string)
            (spec_ranked sentences (min (length prefix_string) 2 + 1) (last_two prefix_string)))"
    unfolding get_next_word_uncut [OF p c] using t by (simp add: slice_to_def)
qed

text \<open>
  After \<open>can i\<close> the ranking is \<open>assist\<close>, \<open>help\<close>: one word asked for gives the first,
  and three words starting with \<open>he\<close> asked for give the one that exists.
\<close>

theorem get_next_word_top_n_witness:
  "spec_ranked sample_corpus 3 [''can'', ''i''] = [''assist'', ''help''] \<and>
   get_next_word sample_model [''how'', ''can'', ''i''] 1 [] = [''assist''] \<and>
   get_next_word sample_model [''how'', ''can'', ''i''] 3 ''he'' = [''help''] \<and>
   startswith (hd (get_next_word sample_model [''how'', ''can'', ''i''] 3 ''he'')) ''he'' \<and>
   int (length (get_next_word sample_model [''how'', ''can'', ''i''] 1 [])) \<le> 1 \<and>
   length (get_next_word sample_model [''how'', ''can'', ''i''] 3 ''he'')
     \<le> length (filter (\<lambda>word. startswith word ''he'') [''assist'', ''help''])"
proof -
  let ?p = "[''how'', ''can'', ''i'']"
  have l: "last_two ?p = [''can'', ''i'']" by (simp add: last_two_def)
  have n: "min (length ?p) 2 + 1 = 3" by simp
  have rk: "spec_ranked sample_corpus 3 [''can'', ''i''] = [''assist'', ''help'']" by code_simp
  have tot: "length (concat sample_corpus) = 18" by code_simp
  have h1: "0 \<le> (1::int) \<and> ?p \<noteq> [] \<and>
      length (spec_ranked sample_corpus (min (length ?p) 2 + 1) (last_two ?p))
        \<le> length (concat sample_corpus)"
    unfolding l n rk tot by simp
  have h3: "0 \<le> (3::int) \<and> ?p \<noteq> [] \<and>
      length (spec_ranked sample_corpus (min (length ?p) 2 + 1) (last_two ?p))
        \<le> length (concat sample_corpus)"
    unfolding l n rk tot by simp
  note t1 = get_next_word_top_n [of sample_model ?p 1 "[]" sample_corpus,
      unfolded sample_model_def [symmetric] l n rk]
  note t3 = get_next_word_top_n [of sample_model ?p 3 "''he''" sample_corpus,
      unfolded sample_model_def [symmetric] l n rk]
  from t1 h1 [unfolded l n rk] have r1: "get_next_word sample_model ?p 1 [] = [''assist'']"
    by simp
  from t3 h3 [unfolded l n rk] have r3: "get_next_word sample_model ?p 3 ''he'' = [''help'']"
    by simp
  from t3 have "\<forall>word \<in> set (get_next_word sample_model ?p 3 ''he''). startswith word ''he''"
    by (rule conjunct1)
  then have r4: "startswith (hd (get_next_word sample_model ?p 3 ''he'')) ''he''"
    unfolding r3 by simp
  from t1 have r5: "int (length (get_next_word sample_model ?p 1 [])) \<le> 1"
    by simp
  from t3 have r6: "length (get_next_word sample_model ?p 3 ''he'')
     \<le> length (filter (\<lambda>word. startswith word ''he'') [''assist'', ''help''])"
    by (elim conjE)
  show ?thesis by (intro conjI rk r1 r3 r4 r5 r6)
qed

text \<open>
  Claim C4. After \<^verbatim>\<open>fit\<close> with any training sentences, for every order \<open>n\<close> of 1, 2, 3
  and every context of \<open>n - 1\<close> tokens, the count the model holds for a word after the
  context is the number of windows of width \<open>n\<close>, over every sentence padded with \<open>n - 1\<close>
  left pads and \<open>n - 1\<close> right pads, that are the context followed by the word. The padding
  width is \<open>n - 1\<close> for each order on its own.
\<close>

theorem fit_counts_padded_windows:
  assumes "n \<in> {1, 2, 3}" and "length context = n - 1"
  shows "count_of (fit_counter sentences) n context word = spec_count sentences n context word"
  using assms by (rule count_of_fit)

text \<open>The trigram count of \<open>assist\<close> after \<open>can i\<close> in the sample corpus.\<close>

theorem fit_counts_padded_windows_witness:
  "(3::nat) \<in> {1, 2, 3} \<and> length [''can'', ''i''] = 3 - 1 \<and>
   spec_count sample_corpus 3 [''can'', ''i''] ''assist'' = 2 \<and>
   count_of (fit_counter sample_corpus) 3 [''can'', ''i''] ''assist''
     = spec_count sample_corpus 3 [''can'', ''i''] ''assist''"
proof -
  have h1: "(3::nat) \<in> {1, 2, 3}" by simp
  have h2: "length [''can'', ''i''] = 3 - 1" by simp
  have v: "spec_count sample_corpus 3 [''can'', ''i''] ''assist'' = 2" by code_simp
  show ?thesis
    using h1 h2 v fit_counts_padded_windows [OF h1 h2, of sample_corpus "''assist''"] by blast
qed

text \<open>
  Claim C3. On a trained model, the words \<^verbatim>\<open>get_next_word\<close> returns for a context (the last
  two tokens of the prefix; the claim is about contexts of two tokens) are ranked by count,
  highest first, and words of equal count stand in the order in which the training run first
  counted them after that context.
\<close>

theorem get_next_word_ranking:
  "sorted_wrt (ranks_before sentences (last_two prefix_string))
     (get_next_word \<lparr>ngram_counter = Some (fit_counter sentences)\<rparr> prefix_string top_n start_string)"
  by (rule get_next_word_ranked)

text \<open>
  Two words of count 1 after \<open>i assist\<close>: \<open>you\<close> was counted first and is ranked first.
\<close>

theorem get_next_word_ranking_witness:
  "get_next_word sample_model [''i'', ''assist''] 2 [] = [''you'', ''</s>''] \<and>
   spec_count sample_corpus 3 [''i'', ''assist''] ''you'' = 1 \<and>
   spec_count sample_corpus 3 [''i'', ''assist''] ''</s>'' = 1 \<and>
   ranks_before sample_corpus [''i'', ''assist''] ''you'' ''</s>'' \<and>
   first_seen sample_corpus [''i'', ''assist''] ''you''
     < first_seen sample_corpus [''i'', ''assist''] ''</s>''"
proof -
  have r: "get_next_word sample_model [''i'', ''assist''] 2 [] = [''you'', ''</s>'']"
    by code_simp
  have c1: "spec_count sample_corpus 3 [''i'', ''assist''] ''you'' = 1" by code_simp
  have c2: "spec_count sample_corpus 3 [''i'', ''assist''] ''</s>'' = 1" by code_simp
  have l: "last_two [''i'', ''assist''] = [''i'', ''assist'']" by (simp add: last_two_def)
  have n: "length [''i'', ''assist''] + 1 = 3" by simp
  have "sorted_wrt (ranks_before sample_corpus [''i'', ''assist''])
          (get_next_word sample_model [''i'', ''assist''] 2 [])"
    using get_next_word_ranking [of sample_corpus "[''i'', ''assist'']" 2 "[]"]
    unfolding l sample_model_def .
  then have rb: "ranks_before sample_corpus [''i'', ''assist''] ''you'' ''</s>''"
    unfolding r by simp
  then have "first_seen sample_corpus [''i'', ''assist''] ''you''
     < first_seen sample_corpus [''i'', ''assist''] ''</s>''"
    unfolding ranks_before_def Let_def n c1 c2 by simp
  with r c1 c2 rb show ?thesis by blast
qed

text \<open>
  Claim C1, as amended. On a trained model \<^verbatim>\<open>get_next_word\<close> takes its candidates from one
  distribution only, that of order \<open>min (len prefix) 2 + 1\<close> after the last
  \<open>min (len prefix) 2\<close> tokens: the trigram order for a prefix of two or more tokens, the
  bigram order for a prefix of one token. Every returned word was counted at that order after
  those tokens; and where the total unigram count is at least the size of the distribution,
  the result is the ranking of that distribution, filtered by \<open>start_string\<close> and cut by the
  slice to \<open>top_n\<close>. An empty prefix returns the empty list.
\<close>

theorem get_next_word_context_order:
  "(\<forall>word \<in> set (get_next_word \<lparr>ngram_counter = Some (fit_counter sentences)\<rparr>
                      prefix_string top_n start_string).
      0 < spec_count sentences (min (length prefix_string) 2 + 1) (last_two prefix_string) word) \<and>
   (prefix_string \<noteq> [] \<and>
    length (spec_ranked sentences (min (length prefix_string) 2 + 1) (last_two prefix_string))
      \<le> length (concat sentences) \<longrightarrow>
      get_next_word \<lparr>ngram_counter = Some (fit_counter sentences)\<rparr>
          prefix_string top_n start_string
        = slice_to top_n (filter (\<lambda>word. startswith word start_string)
            (spec_ranked sentences (min (length prefix_string) 2 + 1) (last_two prefix_string)))) \<and>
   get_next_word \<lparr>ngram_counter = Some (fit_counter sentences)\<rparr> [] top_n start_string = []"
proof (intro conjI impI ballI)
  fix word
  assume "word \<in> set (get_next_word \<lparr>ngram_counter = Some (fit_counter sentences)\<rparr>
                      prefix_string top_n start_string)"
  from get_next_word_counted [OF this]
  show "0 < spec_count sentences (min (length prefix_string) 2 + 1) (last_two prefix_string) word"
    by (simp add: last_two_min)
next
  assume "prefix_string \<noteq> [] \<and>
    length (spec_ranked sentences (min (length prefix_string) 2 + 1) (last_two prefix_string))
      \<le> length (concat sentences)"
  then show "get_next_word \<lparr>ngram_counter = Some (fit_counter sentences)\<rparr>
          prefix_string top_n start_string
        = slice_to top_n (filter (\<lambda>word. startswith word start_string)
            (spec_ranked sentences (min (length prefix_string) 2 + 1) (last_two prefix_string)))"
    using get_next_word_uncut by blast
next
  show "get_next_word \<lparr>ngram_counter = Some (fit_counter sentences)\<rparr> [] top_n start_string = []"
    by (rule get_next_word_Nil)
qed

text \<open>
  A prefix of one token answered with the bigram ranking, a prefix of three tokens answered
  with the trigram ranking of its last two, and the empty prefix.
\<close>

theorem get_next_word_context_order_witness:
  "spec_ranked sample_corpus 2 [''how''] = [''can''] \<and>
   get_next_word sample_model [''how''] 1 [] = [''can''] \<and>
   0 < spec_count sample_corpus 2 [''how''] ''can'' \<and>
   spec_ranked sample_corpus 3 [''can'', ''i''] = [''assist'', ''help''] \<and>
   get_next_word sample_model [''how'', ''can'', ''i''] 2 [] = [''assist'', ''help''] \<and>
   0 < spec_count sample_corpus 3 [''can'', ''i''] ''help'' \<and>
   get_next_word sample_model [] 1 [] = []"
proof -
  let ?p = "[''how'', ''can'', ''i'']"
  have l1: "last_two [''how''] = [''how'']" by (simp add: last_two_def)
  have n1: "min (length [''how'']) 2 + 1 = 2" by simp
  have l3: "last_two ?p = [''can'', ''i'']" by (simp add: last_two_def)
  have n3: "min (length ?p) 2 + 1 = 3" by simp
  have rk1: "spec_ranked sample_corpus 2 [''how''] = [''can'']" by code_simp
  have rk3: "spec_ranked sample_corpus 3 [''can'', ''i''] = [''assist'', ''help'']" by code_simp
  have tot: "length (concat sample_corpus) = 18" by code_simp
  note t1 = get_next_word_context_order [of sample_corpus "[''how'']" 1 "[]",
      unfolded sample_model_def [symmetric] l1 n1 rk1 tot]
  note t3 = get_next_word_context_order [of sample_corpus ?p 2 "[]",
      unfolded sample_model_def [symmetric] l3 n3 rk3 tot]
  from t1 have r1: "get_next_word sample_model [''how''] 1 [] = [''can'']"
    by (simp add: slice_to_def)
  from t3 have r3: "get_next_word sample_model ?p 2 [] = [''assist'', ''help'']"
    by (simp add: slice_to_def)
  from t1 have "\<forall>word \<in> set (get_next_word sample_model [''how''] 1 []).
      0 < spec_count sample_corpus 2 [''how''] word"
    by (rule conjunct1)
  then have c1: "0 < spec_count sample_corpus 2 [''how''] ''can''"
    unfolding r1 by simp
  from t3 have "\<forall>word \<in> set (get_next_word sample_model ?p 2 []).
      0 < spec_count sample_corpus 3 [''can'', ''i''] word"
    by (rule conjunct1)
  then have c3: "0 < spec_count sample_corpus 3 [''can'', ''i''] ''help''"
    unfolding r3 by simp
  from t1 have e: "get_next_word sample_model [] 1 [] = []" by simp
  show ?thesis by (intro conjI rk1 r1 c1 rk3 r3 c3 e)
qed

text \<open>
  Claim C1 as stated fails: for a prefix of one token the result is not empty, the word
  comes from the bigram counts (the test of the repository expects four words after
  \<open>how\<close>).
\<close>

theorem get_next_word_context_order_counterexample:
  "length [''how''] < 2 \<and> get_next_word sample_model [''how''] 1 [] = [''can'']"
  by code_simp

text \<open>
  Claim C5 asks that the cap on the candidates, the total unigram count, never excludes a
  word of a context's distribution. The code does not keep to it. The total counts the
  tokens of the training sentences, while the distributions also hold the right pad: after
  training on a sentence of one token and an empty sentence the total is 1, the context of
  two left pads has two words, and a call with \<open>top_n = 2\<close> returns one of them only.
\<close>

theorem cap_excludes_stored_candidate:
  "getitem (fit_counter [[''a''], []]) [''<s>'', ''<s>''] = [(''a'', 1), (''</s>'', 1)] \<and>
   N (unigrams (fit_counter [[''a''], []])) = 1 \<and>
   get_next_word \<lparr>ngram_counter = Some (fit_counter [[''a''], []])\<rparr> [''<s>'', ''<s>''] 2 []
     = [''a'']"
  by code_simp




text \<open>
  Claim C10. Over the store, for every model state and every list passed as prefix,
  \<^verbatim>\<open>get_next_word\<close> and \<^verbatim>\<open>get_sentence\<close> leave that list with the elements it had: both work
  on a copy. In fact every list that existed before the call is unchanged, and the list at
  the returned address is what the pure query computes from the prefix.
\<close>

theorem queries_keep_prefix:
  assumes "prefix_string < length h"
  shows "snd (get_next_word_h self h prefix_string top_n start_string) ! prefix_string
           = h ! prefix_string \<and>
         snd (get_sentence_h self h prefix_string max_sentence_length) ! prefix_string
           = h ! prefix_string \<and>
         take (length h) (snd (get_next_word_h self h prefix_string top_n start_string)) = h \<and>
         take (length h) (snd (get_sentence_h self h prefix_string max_sentence_length)) = h \<and>
         snd (get_next_word_h self h prefix_string top_n start_string)
             ! fst (get_next_word_h self h prefix_string top_n start_string)
           = get_next_word self (h ! prefix_string) top_n start_string \<and>
         snd (get_sentence_h self h prefix_string max_sentence_length)
             ! fst (get_sentence_h self h prefix_string max_sentence_length)
           = get_sentence self (h ! prefix_string) max_sentence_length"
proof -
  note a = get_next_word_h_frame [OF assms, of self top_n start_string]
  note b = get_sentence_h_frame [OF assms, of self max_sentence_length]
  have "snd (get_next_word_h self h prefix_string top_n start_string) ! prefix_string
           = h ! prefix_string"
    using take_nth_same [OF a(1) assms assms] .
  moreover have "snd (get_sentence_h self h prefix_string max_sentence_length) ! prefix_string
           = h ! prefix_string"
    using take_nth_same [OF b(1) assms assms] .
  ultimately show ?thesis using a b by (intro conjI)
qed

text \<open>
  A store of two lists; the second is the prefix, and \<^verbatim>\<open>get_sentence\<close> grows a copy of it
  by three words.
\<close>

theorem queries_keep_prefix_witness:
  "snd (get_sentence_h sample_model [[''x''], [''how'', ''can'']] 1 8) ! 1 = [''how'', ''can''] \<and>
   snd (get_next_word_h sample_model [[''x''], [''how'', ''can'']] 1 2 []) ! 1 = [''how'', ''can''] \<and>
   get_sentence sample_model [''how'', ''can''] 8 = [''how'', ''can'', ''i'', ''assist'', ''you''] \<and>
   snd (get_sentence_h sample_model [[''x''], [''how'', ''can'']] 1 8)
     ! fst (get_sentence_h sample_model [[''x''], [''how'', ''can'']] 1 8)
     = [''how'', ''can'', ''i'', ''assist'', ''you'']"
proof -
  have h: "(1::nat) < length [[''x''], [''how'', ''can'']]" by simp
  note t = queries_keep_prefix [OF h, of sample_model 2 "[]" 8]
  have v: "get_sentence sample_model [''how'', ''can''] 8 = [''how'', ''can'', ''i'', ''assist'', ''you'']"
    by code_simp
  from t have r1: "snd (get_sentence_h sample_model [[''x''], [''how'', ''can'']] 1 8) ! 1 = [''how'', ''can'']"
    by simp
  from t have r2: "snd (get_next_word_h sample_model [[''x''], [''how'', ''can'']] 1 2 []) ! 1 = [''how'', ''can'']"
    by simp
  from t have "snd (get_sentence_h sample_model [[''x''], [''how'', ''can'']] 1 8)
     ! fst (get_sentence_h sample_model [[''x''], [''how'', ''can'']] 1 8)
     = get_sentence sample_model ([[''x''], [''how'', ''can'']] ! 1) 8"
    by (elim conjE)
  then have r3: "snd (get_sentence_h sample_model [[''x''], [''how'', ''can'']] 1 8)
     ! fst (get_sentence_h sample_model [[''x''], [''how'', ''can'']] 1 8)
     = [''how'', ''can'', ''i'', ''assist'', ''you'']"
    using v by simp
  show ?thesis by (intro conjI r1 r2 v r3)
qed

end
